theory Spec2Isabelle
  imports Complex_Main "HOL-Library.Finite_Map" "HOL-Library.Multiset"
begin

section \<open>List view: the tree of blocks\<close>

text \<open>
  A node of the client-id tree is a JavaScript object with a \<open>clientId\<close>, an array
  \<open>innerBlocks\<close> of nodes, and whatever other properties the rendering layer attached
  to it (the object spread \<open>{ ...block }\<close> copies them all). The other properties
  are the payload \<open>attrs\<close>.
\<close>

datatype 'a block = Block (clientId: string) (attrs: 'a) (innerBlocks: "'a block list")

subsection \<open>removeItemFromTree\<close>

text \<open>
  The \<open>for\<close> loop of \<open>removeItemFromTree\<close>, with its two local variables
  \<open>newTree\<close> and \<open>removeParentId\<close> as accumulators. The loop runs over the
  array from index 0; \<open>newTree.push(x)\<close> is \<open>newTree @ [x]\<close>.
\<close>

fun removeLoop ::
  "'a block list \<Rightarrow> string \<Rightarrow> string \<Rightarrow> 'a block list \<Rightarrow> string \<Rightarrow> 'a block list \<times> string"
where
  "removeLoop [] ident parentId newTree removeParentId = (newTree, removeParentId)"
| "removeLoop (Block c a kids # rest) ident parentId newTree removeParentId =
     (if c \<noteq> ident then
        (if length kids > 0 then
           (case removeLoop kids ident c [] [] of
              (innerBlocks', cRemoveParentId) \<Rightarrow>
                removeLoop rest ident parentId (newTree @ [Block c a innerBlocks'])
                  (if cRemoveParentId \<noteq> [] then cRemoveParentId else removeParentId))
         else removeLoop rest ident parentId (newTree @ [Block c a kids]) removeParentId)
      else removeLoop rest ident parentId newTree parentId)"

definition removeItemFromTree ::
  "'a block list \<Rightarrow> string \<Rightarrow> string \<Rightarrow> 'a block list \<times> string"
where
  "removeItemFromTree tree ident parentId = removeLoop tree ident parentId [] []"

subsection \<open>addItemToTree\<close>

text \<open>
  The result object \<open>{ newTree, targetId, targetIndex }\<close> is the triple
  \<open>(newTree, targetId, targetIndex)\<close>; \<open>targetIndex\<close> starts at \<open>-1\<close>.
\<close>

fun addLoop ::
  "'a block list \<Rightarrow> string \<Rightarrow> 'a block \<Rightarrow> bool \<Rightarrow> string \<Rightarrow>
     'a block list \<Rightarrow> int \<Rightarrow> string \<Rightarrow> 'a block list \<times> string \<times> int"
where
  "addLoop [] ident item insertAfter parentId newTree targetIndex targetId =
     (newTree, targetId, targetIndex)"
| "addLoop (Block c a kids # rest) ident item insertAfter parentId newTree targetIndex targetId =
     (if c = ident then
        (if insertAfter then
           addLoop rest ident item insertAfter parentId
             (newTree @ [Block c a kids] @ [item]) (int (length newTree) + 1) parentId
         else
           addLoop rest ident item insertAfter parentId
             (newTree @ [item] @ [Block c a kids]) (int (length newTree)) parentId)
      else
        (if length kids > 0 then
           (case addLoop kids ident item insertAfter c [] (- 1) [] of
              (innerBlocks', childTargetId, childTargetIndex) \<Rightarrow>
                addLoop rest ident item insertAfter parentId
                  (newTree @ [Block c a innerBlocks'])
                  (max targetIndex childTargetIndex)
                  (if childTargetId \<noteq> [] then childTargetId else targetId))
         else
           addLoop rest ident item insertAfter parentId
             (newTree @ [Block c a kids]) targetIndex targetId))"

definition addItemToTree ::
  "'a block list \<Rightarrow> string \<Rightarrow> 'a block \<Rightarrow> bool \<Rightarrow> string \<Rightarrow> 'a block list \<times> string \<times> int"
where
  "addItemToTree tree ident item insertAfter parentId =
     addLoop tree ident item insertAfter parentId [] (- 1) []"

subsection \<open>addChildItemToTree\<close>

fun addChildLoop ::
  "'a block list \<Rightarrow> string \<Rightarrow> 'a block \<Rightarrow> 'a block list \<Rightarrow> 'a block list"
where
  "addChildLoop [] ident item newTree = newTree"
| "addChildLoop (Block c a kids # rest) ident item newTree =
     (if c = ident then
        addChildLoop rest ident item (newTree @ [Block c a (item # kids)])
      else
        (if length kids > 0 then
           addChildLoop rest ident item
             (newTree @ [Block c a (addChildLoop kids ident item [])])
         else
           addChildLoop rest ident item (newTree @ [Block c a kids])))"

definition addChildItemToTree :: "'a block list \<Rightarrow> string \<Rightarrow> 'a block \<Rightarrow> 'a block list"
where
  "addChildItemToTree tree ident item = addChildLoop tree ident item []"

subsection \<open>Identifiers of a tree\<close>

text \<open>The client ids of a node and of a tree, in depth-first, left-to-right order.\<close>

fun block_ids :: "'a block \<Rightarrow> string list" where
  "block_ids (Block c a kids) = c # concat (map block_ids kids)"

definition tree_ids :: "'a block list \<Rightarrow> string list" where
  "tree_ids tree = concat (map block_ids tree)"

text \<open>The first node with a given client id, in the same order.\<close>

fun find_block :: "string \<Rightarrow> 'a block list \<Rightarrow> 'a block option" where
  "find_block ident [] = None"
| "find_block ident (Block c a kids # rest) =
     (if c = ident then Some (Block c a kids)
      else (case find_block ident kids of
              Some b \<Rightarrow> Some b
            | None \<Rightarrow> find_block ident rest))"


subsection \<open>What removal and insertion mean\<close>

text \<open>
  \<open>omit ident parent t t' rp\<close>: the forest \<open>t'\<close> is \<open>t\<close> with one node of client id
  \<open>ident\<close> left out of its sibling sequence, subtree included, and everything else in
  place; \<open>rp\<close> is the client id of the node whose \<open>innerBlocks\<close> lost it, or
  \<open>parent\<close> when the node was in the sequence \<open>t\<close> itself.
\<close>

inductive omit :: "string \<Rightarrow> string \<Rightarrow> 'a block list \<Rightarrow> 'a block list \<Rightarrow> string \<Rightarrow> bool"
  for ident :: string
where
  here: "clientId b = ident \<Longrightarrow> omit ident parent (xs @ b # ys) (xs @ ys) parent"
| inside: "omit ident (clientId b) (innerBlocks b) ks rp \<Longrightarrow>
     omit ident parent (xs @ b # ys) (xs @ Block (clientId b) (attrs b) ks # ys) rp"

text \<open>
  \<open>inserted ident item after parent t t' tid idx\<close>: the forest \<open>t'\<close> is \<open>t\<close> with
  \<open>item\<close> put directly behind (\<open>after\<close>) or directly before a node of client id
  \<open>ident\<close>, in that node's sibling sequence; \<open>idx\<close> is the 0-based index of \<open>item\<close>
  in the new sequence and \<open>tid\<close> the client id of the node owning the sequence, or
  \<open>parent\<close> when it is \<open>t\<close> itself.
\<close>

inductive inserted ::
  "string \<Rightarrow> 'a block \<Rightarrow> bool \<Rightarrow> string \<Rightarrow> 'a block list \<Rightarrow> 'a block list \<Rightarrow> string \<Rightarrow> int \<Rightarrow> bool"
  for ident :: string and item :: "'a block" and after :: bool
where
  behind: "clientId b = ident \<Longrightarrow> after \<Longrightarrow>
     inserted ident item after parent (xs @ b # ys) (xs @ b # item # ys)
       parent (int (length xs) + 1)"
| before: "clientId b = ident \<Longrightarrow> \<not> after \<Longrightarrow>
     inserted ident item after parent (xs @ b # ys) (xs @ item # b # ys)
       parent (int (length xs))"
| inside: "inserted ident item after (clientId b) (innerBlocks b) ks tid idx \<Longrightarrow>
     inserted ident item after parent (xs @ b # ys)
       (xs @ Block (clientId b) (attrs b) ks # ys) tid idx"

section \<open>The same operations on a store of objects\<close>

text \<open>
  The datatype above describes the value of a tree. Whether an operation leaves its
  input objects alone is a question about object identity, so the three operations are
  modelled a second time on an explicit store. A node object has the fields of a
  \<open>block\<close>, with \<open>innerBlocks\<close> holding the references of the children; a
  reference is an index into the store, and creating an object (an object literal
  \<open>{ ... }\<close>) appends it. Arrays are never updated in place by the three operations
  except the fresh \<open>newTree\<close>, so an array is the list of its elements.

  Recursion follows references, so the functions take fuel for the recursion depth. The
  result \<open>None\<close> means that the fuel ran out or that a reference points outside of the
  store (which no JavaScript reference does).
\<close>

type_synonym addr = nat

record 'a node =
  node_clientId :: string
  node_attrs :: 'a
  node_innerBlocks :: "addr list"

type_synonym 'a heap = "'a node list"

definition load :: "'a heap \<Rightarrow> addr \<Rightarrow> 'a node option" where
  "load h r = (if r < length h then Some (h ! r) else None)"

text \<open>An object literal: the new object gets the next free reference.\<close>

definition alloc :: "'a heap \<Rightarrow> 'a node \<Rightarrow> 'a heap \<times> addr" where
  "alloc h n = (h @ [n], length h)"

text \<open>An assignment \<open>block.innerBlocks = v\<close> to the object behind a reference.\<close>

definition assign_innerBlocks :: "'a heap \<Rightarrow> addr \<Rightarrow> addr list \<Rightarrow> 'a heap" where
  "assign_innerBlocks h r v = h[r := (h ! r)\<lparr>node_innerBlocks := v\<rparr>]"

fun removeLoop_h ::
  "nat \<Rightarrow> 'a heap \<Rightarrow> addr list \<Rightarrow> string \<Rightarrow> string \<Rightarrow> addr list \<Rightarrow> string \<Rightarrow>
     ('a heap \<times> addr list \<times> string) option"
where
  "removeLoop_h fuel h [] ident parentId newTree removeParentId =
     Some (h, newTree, removeParentId)"
| "removeLoop_h fuel h (r # rest) ident parentId newTree removeParentId =
     (case load h r of
        None \<Rightarrow> None
      | Some block \<Rightarrow>
          if node_clientId block \<noteq> ident then
            (if length (node_innerBlocks block) > 0 then
               (case fuel of
                  0 \<Rightarrow> None
                | Suc fuel' \<Rightarrow>
                    (case removeLoop_h fuel' h (node_innerBlocks block) ident
                            (node_clientId block) [] [] of
                       None \<Rightarrow> None
                     | Some (h1, innerBlocks', cRemoveParentId) \<Rightarrow>
                         (case load h1 r of
                            None \<Rightarrow> None
                          | Some block1 \<Rightarrow>
                              (case alloc h1 (block1\<lparr>node_innerBlocks := innerBlocks'\<rparr>) of
                                 (h2, copy) \<Rightarrow>
                                   removeLoop_h fuel h2 rest ident parentId (newTree @ [copy])
                                     (if cRemoveParentId \<noteq> [] then cRemoveParentId
                                      else removeParentId)))))
             else
               (case alloc h block of
                  (h1, copy) \<Rightarrow>
                    removeLoop_h fuel h1 rest ident parentId (newTree @ [copy]) removeParentId))
          else removeLoop_h fuel h rest ident parentId newTree parentId)"

definition removeItemFromTree_h ::
  "nat \<Rightarrow> 'a heap \<Rightarrow> addr list \<Rightarrow> string \<Rightarrow> string \<Rightarrow> ('a heap \<times> addr list \<times> string) option"
where
  "removeItemFromTree_h fuel h tree ident parentId =
     removeLoop_h fuel h tree ident parentId [] []"

fun addLoop_h ::
  "nat \<Rightarrow> 'a heap \<Rightarrow> addr list \<Rightarrow> string \<Rightarrow> addr \<Rightarrow> bool \<Rightarrow> string \<Rightarrow>
     addr list \<Rightarrow> int \<Rightarrow> string \<Rightarrow> ('a heap \<times> addr list \<times> string \<times> int) option"
where
  "addLoop_h fuel h [] ident item insertAfter parentId newTree targetIndex targetId =
     Some (h, newTree, targetId, targetIndex)"
| "addLoop_h fuel h (r # rest) ident item insertAfter parentId newTree targetIndex targetId =
     (case load h r of
        None \<Rightarrow> None
      | Some block \<Rightarrow>
          if node_clientId block = ident then
            (case load h item of
               None \<Rightarrow> None
             | Some itemObj \<Rightarrow>
                 if insertAfter then
                   (case alloc h block of
                      (h1, blockCopy) \<Rightarrow>
                        (case alloc h1 itemObj of
                           (h2, itemCopy) \<Rightarrow>
                             addLoop_h fuel h2 rest ident item insertAfter parentId
                               (newTree @ [blockCopy] @ [itemCopy])
                               (int (length newTree) + 1) parentId))
                 else
                   (case alloc h itemObj of
                      (h1, itemCopy) \<Rightarrow>
                        (case alloc h1 block of
                           (h2, blockCopy) \<Rightarrow>
                             addLoop_h fuel h2 rest ident item insertAfter parentId
                               (newTree @ [itemCopy] @ [blockCopy])
                               (int (length newTree)) parentId)))
          else
            (if length (node_innerBlocks block) > 0 then
               (case fuel of
                  0 \<Rightarrow> None
                | Suc fuel' \<Rightarrow>
                    (case addLoop_h fuel' h (node_innerBlocks block) ident item insertAfter
                            (node_clientId block) [] (- 1) [] of
                       None \<Rightarrow> None
                     | Some (h1, innerBlocks', childTargetId, childTargetIndex) \<Rightarrow>
                         (case load h1 r of
                            None \<Rightarrow> None
                          | Some block1 \<Rightarrow>
                              (case alloc h1 (block1\<lparr>node_innerBlocks := innerBlocks'\<rparr>) of
                                 (h2, copy) \<Rightarrow>
                                   addLoop_h fuel h2 rest ident item insertAfter parentId
                                     (newTree @ [copy])
                                     (max targetIndex childTargetIndex)
                                     (if childTargetId \<noteq> [] then childTargetId
                                      else targetId)))))
             else
               (case alloc h block of
                  (h1, copy) \<Rightarrow>
                    addLoop_h fuel h1 rest ident item insertAfter parentId
                      (newTree @ [copy]) targetIndex targetId)))"

definition addItemToTree_h ::
  "nat \<Rightarrow> 'a heap \<Rightarrow> addr list \<Rightarrow> string \<Rightarrow> addr \<Rightarrow> bool \<Rightarrow> string \<Rightarrow>
     ('a heap \<times> addr list \<times> string \<times> int) option"
where
  "addItemToTree_h fuel h tree ident item insertAfter parentId =
     addLoop_h fuel h tree ident item insertAfter parentId [] (- 1) []"

text \<open>
  In \<open>addChildItemToTree\<close> the matching branch assigns to \<open>block.innerBlocks\<close>,
  where \<open>block\<close> is the element \<open>tree[index]\<close> of the argument, and pushes that same
  object; \<open>item\<close> is stored by reference. In the other branch the spread
  \<open>...block\<close> is evaluated before the recursive call.
\<close>

fun addChildLoop_h ::
  "nat \<Rightarrow> 'a heap \<Rightarrow> addr list \<Rightarrow> string \<Rightarrow> addr \<Rightarrow> addr list \<Rightarrow> ('a heap \<times> addr list) option"
where
  "addChildLoop_h fuel h [] ident item newTree = Some (h, newTree)"
| "addChildLoop_h fuel h (r # rest) ident item newTree =
     (case load h r of
        None \<Rightarrow> None
      | Some block \<Rightarrow>
          if node_clientId block = ident then
            addChildLoop_h fuel (assign_innerBlocks h r (item # node_innerBlocks block))
              rest ident item (newTree @ [r])
          else
            (if length (node_innerBlocks block) > 0 then
               (case fuel of
                  0 \<Rightarrow> None
                | Suc fuel' \<Rightarrow>
                    (case addChildLoop_h fuel' h (node_innerBlocks block) ident item [] of
                       None \<Rightarrow> None
                     | Some (h1, innerBlocks') \<Rightarrow>
                         (case alloc h1 (block\<lparr>node_innerBlocks := innerBlocks'\<rparr>) of
                            (h2, copy) \<Rightarrow>
                              addChildLoop_h fuel h2 rest ident item (newTree @ [copy]))))
             else
               (case alloc h block of
                  (h1, copy) \<Rightarrow> addChildLoop_h fuel h1 rest ident item (newTree @ [copy]))))"

definition addChildItemToTree_h ::
  "nat \<Rightarrow> 'a heap \<Rightarrow> addr list \<Rightarrow> string \<Rightarrow> addr \<Rightarrow> ('a heap \<times> addr list) option"
where
  "addChildItemToTree_h fuel h tree ident item = addChildLoop_h fuel h tree ident item []"

text \<open>The value of the tree behind a list of references, read from the store.\<close>

fun reify :: "nat \<Rightarrow> 'a heap \<Rightarrow> addr list \<Rightarrow> 'a block list option" where
  "reify fuel h [] = Some []"
| "reify fuel h (r # rest) =
     (case load h r of
        None \<Rightarrow> None
      | Some block \<Rightarrow>
          (case fuel of
             0 \<Rightarrow> None
           | Suc fuel' \<Rightarrow>
               (case reify fuel' h (node_innerBlocks block) of
                  None \<Rightarrow> None
                | Some kids \<Rightarrow>
                    (case reify fuel h rest of
                       None \<Rightarrow> None
                     | Some rest' \<Rightarrow>
                         Some (Block (node_clientId block) (node_attrs block) kids # rest')))))"

text \<open>
  A store with the tree \<open>A [B], C\<close> (objects 0 to 2) and a separate node \<open>X\<close>
  (object 3); the tree is the array \<open>[0, 2]\<close>.
\<close>

definition example_heap :: "unit heap" where
  "example_heap =
     [\<lparr>node_clientId = ''A'', node_attrs = (), node_innerBlocks = [1]\<rparr>,
      \<lparr>node_clientId = ''B'', node_attrs = (), node_innerBlocks = []\<rparr>,
      \<lparr>node_clientId = ''C'', node_attrs = (), node_innerBlocks = []\<rparr>,
      \<lparr>node_clientId = ''X'', node_attrs = (), node_innerBlocks = []\<rparr>]"

section \<open>The position registry\<close>

text \<open>
  \<open>setPosition\<close> stores, under the list position of a row, an object
  \<open>{ clientId, dropContainer, dropSibling, parentId }\<close>. The registry is a JavaScript
  object used as a table from integers to entries: a finite map. \<open>parentId\<close> is a
  prop of the row and may be undefined (\<open>None\<close>).
\<close>

record position =
  pos_clientId :: string
  pos_dropContainer :: bool
  pos_dropSibling :: bool
  pos_parentId :: "string option"

definition setPosition ::
  "(int, position) fmap \<Rightarrow> int \<Rightarrow> position \<Rightarrow> (int, position) fmap"
where
  "setPosition positions listPosition info = fmupd listPosition info positions"

text \<open>
  Indices are JavaScript numbers. \<open>js_safe\<close> is \<open>Number.isSafeInteger\<close>: for a safe
  integer \<open>n\<close> the sums \<open>n + 1\<close> and \<open>n - 1\<close> of the source are the integer sums. From
  \<open>2 ^ 53\<close> on a sum is rounded (\<open>2 ^ 53 + 1\<close> is \<open>2 ^ 53\<close>), and the loop below may
  stop advancing.
\<close>

definition js_safe :: "int \<Rightarrow> bool" where
  "js_safe n \<longleftrightarrow> \<bar>n\<bar> < 2 ^ 53"

text \<open>
  \<open>TypeError\<close> is the exception of the source. \<open>InexactIndex\<close> is no exception: it
  is the answer of this model for a run in which an index beyond the safe integers
  would be incremented, where integer addition no longer describes the source.
\<close>

datatype error = TypeError | InexactIndex

definition iterate :: "real \<Rightarrow> int" where
  "iterate velocity = (if velocity > 0 then 1 else - 1)"

text \<open>
  The \<open>while\<close> loop of \<open>findFirstValidSibling\<close>. Reading \<open>currentPosition.parentId\<close>
  when \<open>positions[current]\<close> is undefined throws a TypeError; the read happens only
  after \<open>position.dropSibling\<close> was found true. \<open>index += iterate\<close> is the integer
  sum for a safe \<open>index\<close>.
\<close>

function siblingLoop ::
  "(int, position) fmap \<Rightarrow> position option \<Rightarrow> real \<Rightarrow> int \<Rightarrow> error + (position \<times> int) option"
where
  "siblingLoop positions currentPosition velocity index =
     (case fmlookup positions index of
        None \<Rightarrow> Inr None
      | Some position \<Rightarrow>
          if pos_dropSibling position then
            (case currentPosition of
               None \<Rightarrow> Inl TypeError
             | Some cur \<Rightarrow>
                 if pos_parentId position = pos_parentId cur then Inr (Some (position, index))
                 else if js_safe index
                 then siblingLoop positions currentPosition velocity (index + iterate velocity)
                 else Inl InexactIndex)
          else if js_safe index
          then siblingLoop positions currentPosition velocity (index + iterate velocity)
          else Inl InexactIndex)"
  by pat_completeness auto
termination
proof (relation "measure (\<lambda>(positions, currentPosition, velocity, index).
    card {k \<in> fmdom' positions. if velocity > 0 then index \<le> k else k \<le> index})")
  have step: "((positions, currentPosition, velocity, index + iterate velocity),
      (positions, currentPosition, velocity, index)) \<in>
    measure (\<lambda>(positions, currentPosition, velocity, index).
      card {k \<in> fmdom' positions. if velocity > 0 then index \<le> k else k \<le> index})"
    if lk: "fmlookup positions index = Some position"
    for positions :: "(int, position) fmap" and currentPosition :: "position option"
      and velocity :: real and index :: int and position
  proof -
    let ?A = "{k \<in> fmdom' positions. if velocity > 0 then index + iterate velocity \<le> k
       else k \<le> index + iterate velocity}"
    let ?B = "{k \<in> fmdom' positions. if velocity > 0 then index \<le> k else k \<le> index}"
    have "index \<in> ?B" using lk by (simp add: fmdom'I)
    moreover have "index \<notin> ?A" by (simp add: iterate_def)
    moreover have "?A \<subseteq> ?B" by (auto simp: iterate_def)
    ultimately have "?A \<subset> ?B" by blast
    moreover have "finite ?B" by simp
    ultimately have "card ?A < card ?B" by (rule psubset_card_mono [rotated])
    then show ?thesis by simp
  qed
  show "wf (measure (\<lambda>(positions :: (int, position) fmap, currentPosition :: position option,
      velocity :: real, index :: int).
    card {k \<in> fmdom' positions. if velocity > 0 then index \<le> k else k \<le> index}))"
    by simp
  show "((positions, currentPosition, velocity, index + iterate velocity),
      (positions, currentPosition, velocity, index)) \<in>
    measure (\<lambda>(positions, currentPosition, velocity, index).
      card {k \<in> fmdom' positions. if velocity > 0 then index \<le> k else k \<le> index})"
    if "fmlookup positions index = Some position"
    for positions :: "(int, position) fmap" and currentPosition :: "position option"
      and velocity :: real and index :: int and position
    using that by (rule step)
  then show "((positions, currentPosition, velocity, index + iterate velocity),
      (positions, currentPosition, velocity, index)) \<in>
    measure (\<lambda>(positions, currentPosition, velocity, index).
      card {k \<in> fmdom' positions. if velocity > 0 then index \<le> k else k \<le> index})"
    if "fmlookup positions index = Some position"
    for positions :: "(int, position) fmap" and currentPosition :: "position option"
      and velocity :: real and index :: int and position
    using that by blast
qed

declare siblingLoop.simps [simp del]

definition findFirstValidSibling ::
  "(int, position) fmap \<Rightarrow> int \<Rightarrow> real \<Rightarrow> error + (position \<times> int) option"
where
  "findFirstValidSibling positions current velocity =
     (if js_safe current
      then siblingLoop positions (fmlookup positions current) velocity
             (current + iterate velocity)
      else Inl InexactIndex)"

text \<open>
  The registry of the sibling-finder example: rows 0 to 4, of which rows 1 and 3 are
  sibling-drop targets below the same parent \<open>A\<close>.
\<close>

definition example_positions :: "(int, position) fmap" where
  "example_positions =
     setPosition (setPosition (setPosition (setPosition (setPosition fmempty
       0 \<lparr>pos_clientId = ''A'', pos_dropContainer = True, pos_dropSibling = False,
          pos_parentId = None\<rparr>)
       1 \<lparr>pos_clientId = ''a1'', pos_dropContainer = False, pos_dropSibling = True,
          pos_parentId = Some ''A''\<rparr>)
       2 \<lparr>pos_clientId = ''a2'', pos_dropContainer = False, pos_dropSibling = False,
          pos_parentId = Some ''A''\<rparr>)
       3 \<lparr>pos_clientId = ''a3'', pos_dropContainer = False, pos_dropSibling = True,
          pos_parentId = Some ''A''\<rparr>)
       4 \<lparr>pos_clientId = ''B'', pos_dropContainer = True, pos_dropSibling = False,
          pos_parentId = None\<rparr>"

section \<open>The list view component\<close>

text \<open>
  The pending target held in the ref \<open>lastTarget\<close>, and the arguments of one call
  of the store's \<open>moveBlocksToPosition\<close>.
\<close>

record last_target =
  lt_clientId :: string
  lt_originalParent :: string
  lt_targetId :: string
  lt_targetIndex :: int

type_synonym move_call = "string list \<times> string \<times> string \<times> int"

text \<open>
  The state the callbacks of \<open>ListView\<close> read and write: the authoritative tree
  \<open>clientIdsTree\<close> delivered by the store, the working tree of \<open>useState\<close>, the
  registry behind \<open>positionsRef\<close>, the ref \<open>lastTarget\<close> and the flag
  \<open>dropped\<close>. The calls made to \<open>moveBlocksToPosition\<close> are recorded in order.
\<close>

record 'a list_view =
  clientIdsTree :: "'a block list"
  tree :: "'a block list"
  positions :: "(int, position) fmap"
  lastTarget :: "last_target option"
  dropped :: bool
  moveBlocksToPosition_calls :: "move_call list"

text \<open>
  \<open>dropItem\<close> up to its \<open>await\<close>: the call of \<open>moveBlocksToPosition\<close> is made
  before the function suspends. The continuation sets a timer of 200 ms whose callback
  is \<open>dropItem_settled\<close>.
\<close>

definition dropItem :: "'a list_view \<Rightarrow> 'a list_view" where
  "dropItem s =
     (case lastTarget s of
        None \<Rightarrow> s
      | Some target \<Rightarrow>
          s\<lparr>dropped := True,
            lastTarget := None,
            moveBlocksToPosition_calls := moveBlocksToPosition_calls s @
              [([lt_clientId target], lt_originalParent target, lt_targetId target,
                lt_targetIndex target)]\<rparr>)"

definition dropItem_settled :: "'a list_view \<Rightarrow> 'a list_view" where
  "dropItem_settled s = s\<lparr>dropped := False\<rparr>"

datatype direction = UP | DOWN

definition ITEM_HEIGHT :: real where
  "ITEM_HEIGHT = 36"

definition UPDATE_PARENT_THRESHOLD :: real where
  "UPDATE_PARENT_THRESHOLD = 20"

text \<open>
  \<open>moveItem\<close> contains the same statements twice for an insertion beside the target
  (the sibling branch of the horizontal gesture and the sibling swap) and three times for
  an insertion as first child. They are written once each here. \<open>setTree\<close> replaces
  the working tree.
\<close>

definition insertBeside :: "'a list_view \<Rightarrow> 'a block \<Rightarrow> position \<Rightarrow> direction \<Rightarrow> 'a list_view" where
  "insertBeside s block targetPosition dir =
     (case removeItemFromTree (clientIdsTree s) (clientId block) [] of
        (treeWithoutDragItem, removeParentId) \<Rightarrow>
          (case addItemToTree treeWithoutDragItem (pos_clientId targetPosition) block
                  (dir = DOWN) [] of
             (newTree, targetId, targetIndex) \<Rightarrow>
               s\<lparr>lastTarget := Some \<lparr>lt_clientId = clientId block,
                                     lt_originalParent = removeParentId,
                                     lt_targetId = targetId,
                                     lt_targetIndex = targetIndex\<rparr>,
                 tree := newTree\<rparr>))"

definition insertInto :: "'a list_view \<Rightarrow> 'a block \<Rightarrow> position \<Rightarrow> 'a list_view" where
  "insertInto s block targetPosition =
     (case removeItemFromTree (clientIdsTree s) (clientId block) [] of
        (treeWithoutDragItem, removeParentId) \<Rightarrow>
          (let newTree = addChildItemToTree treeWithoutDragItem (pos_clientId targetPosition) block
           in s\<lparr>lastTarget := Some \<lparr>lt_clientId = clientId block,
                                       lt_originalParent = removeParentId,
                                       lt_targetId = pos_clientId targetPosition,
                                       lt_targetIndex = 0\<rparr>,
                  tree := newTree\<rparr>))"

text \<open>
  The arguments of \<open>moveItem\<close>: \<open>translate\<close> and \<open>translateX\<close> are the deltas of the
  viewport box, \<open>velocity\<close> is the motion value (\<open>velocity?.get() ?? 0\<close> reads it, an
  absent one counts as 0). JavaScript numbers are taken as real numbers; \<open>listPosition\<close>
  is an integer. \<open>! targetPosition.parentId\<close> holds for an undefined and for an empty
  parent id.
\<close>

definition moveItem ::
  "'a list_view \<Rightarrow> 'a block \<Rightarrow> real \<Rightarrow> real \<Rightarrow> int \<Rightarrow> real option \<Rightarrow> error + 'a list_view"
where
  "moveItem s block translate translateX listPosition velocity =
     (let v = (case velocity of Some x \<Rightarrow> x | None \<Rightarrow> 0) in
      if v = 0 then Inr s
      else
        let dir = (if v > 0 then DOWN else UP);
            draggingUpPastBounds =
              (fmlookup (positions s) (listPosition + 1) = None \<and> dir = UP \<and> translate > 0);
            draggingDownPastBounds = (listPosition = 0 \<and> dir = DOWN \<and> translate < 0)
        in
        if draggingUpPastBounds \<or> draggingDownPastBounds then Inr s
        else if (dir = DOWN \<and> translate < 0) \<or> (dir = UP \<and> translate > 0) then Inr s
        else if \<bar>translate\<bar> < ITEM_HEIGHT / 2 then Inr s
        else if \<bar>translateX\<bar> > UPDATE_PARENT_THRESHOLD then
          (let steps = \<lceil>\<bar>translate / ITEM_HEIGHT\<bar>\<rceil>;
               nextIndex = (if dir = UP then listPosition - steps else listPosition + steps)
           in
           case fmlookup (positions s) nextIndex of
             None \<Rightarrow> Inr s
           | Some targetPosition \<Rightarrow>
               if translateX < 0 then
                 (if pos_parentId targetPosition = None \<or> pos_parentId targetPosition = Some []
                     \<or> pos_dropSibling targetPosition
                  then Inr (insertBeside s block targetPosition dir)
                  else if pos_dropContainer targetPosition
                  then Inr (insertInto s block targetPosition)
                  else Inr s)
               else if translateX > 0 then
                 (if pos_dropContainer targetPosition
                  then Inr (insertInto s block targetPosition)
                  else Inr s)
               else Inr s)
        else
          (case findFirstValidSibling (positions s) listPosition v of
             Inl e \<Rightarrow> Inl e
           | Inr None \<Rightarrow> Inr s
           | Inr (Some (targetPosition, nextIndex)) \<Rightarrow>
               if \<bar>translate\<bar> > (ITEM_HEIGHT * real_of_int \<bar>listPosition - nextIndex\<bar>) / 2
               then Inr (insertBeside s block targetPosition dir)
               else Inr s))"

subsection \<open>Example views\<close>

text \<open>
  A list view showing the tree \<open>A [a1, a2, a3], B\<close> with the registry above, no drag
  target pending.
\<close>

definition example_view :: "unit list_view" where
  "example_view =
     \<lparr>clientIdsTree =
        [Block ''A'' () [Block ''a1'' () [], Block ''a2'' () [], Block ''a3'' () []],
         Block ''B'' () []],
      tree =
        [Block ''A'' () [Block ''a1'' () [], Block ''a2'' () [], Block ''a3'' () []],
         Block ''B'' () []],
      positions = example_positions,
      lastTarget = None,
      dropped = False,
      moveBlocksToPosition_calls = []\<rparr>"


text \<open>A list view showing the three roots \<open>A, B, C\<close>, each a sibling-drop target.\<close>

definition flat_view :: "unit list_view" where
  "flat_view =
     \<lparr>clientIdsTree = [Block ''A'' () [], Block ''B'' () [], Block ''C'' () []],
      tree = [Block ''A'' () [], Block ''B'' () [], Block ''C'' () []],
      positions =
        setPosition (setPosition (setPosition fmempty
          0 \<lparr>pos_clientId = ''A'', pos_dropContainer = False, pos_dropSibling = True,
             pos_parentId = None\<rparr>)
          1 \<lparr>pos_clientId = ''B'', pos_dropContainer = False, pos_dropSibling = True,
             pos_parentId = None\<rparr>)
          2 \<lparr>pos_clientId = ''C'', pos_dropContainer = False, pos_dropSibling = True,
             pos_parentId = None\<rparr>,
      lastTarget = None,
      dropped = False,
      moveBlocksToPosition_calls = []\<rparr>"


section \<open>Facts about the tree operations\<close>

lemma tree_ids_Nil [simp]: "tree_ids [] = []"
  by (simp add: tree_ids_def)

lemma tree_ids_Cons [simp]:
  "tree_ids (Block c a kids # rest) = c # tree_ids kids @ tree_ids rest"
  by (simp add: tree_ids_def)

lemma tree_ids_append [simp]: "tree_ids (xs @ ys) = tree_ids xs @ tree_ids ys"
  by (simp add: tree_ids_def)

lemma block_ids_tree_ids: "block_ids b = clientId b # tree_ids (innerBlocks b)"
  by (cases b) (simp add: tree_ids_def)


text \<open>Induction over a forest: the children and the later siblings of the first node.\<close>

lemma tree_induct [case_names Nil Cons]:
  assumes "P []"
    and "\<And>c a kids rest. P kids \<Longrightarrow> P rest \<Longrightarrow> P (Block c a kids # rest)"
  shows "P t"
proof (induction "size_list size t" arbitrary: t rule: less_induct)
  case less
  show ?case
  proof (cases t)
    case Nil
    with assms(1) show ?thesis by simp
  next
    case (Cons b rest)
    obtain c a kids where b: "b = Block c a kids" by (cases b)
    have "P kids" by (rule less) (simp add: Cons b)
    moreover have "P rest" by (rule less) (simp add: Cons b)
    ultimately show ?thesis unfolding Cons b by (rule assms(2))
  qed
qed

lemma top_ids_subset: "clientId ` set t \<subseteq> set (tree_ids t)"
  by (induction t rule: tree_induct) auto

subsection \<open>removeItemFromTree\<close>

lemma removeLoop_absent:
  "ident \<notin> set (tree_ids t) \<Longrightarrow> removeLoop t ident p acc rp = (acc @ t, rp)"
proof (induction t arbitrary: p acc rp rule: tree_induct)
  case Nil
  show ?case by simp
next
  case (Cons c a kids rest)
  from Cons.prems have c: "c \<noteq> ident" and k: "ident \<notin> set (tree_ids kids)"
    and r: "ident \<notin> set (tree_ids rest)" by auto
  show ?case using c by (simp add: Cons.IH(1) [OF k] Cons.IH(2) [OF r])
qed

lemma omit_Cons: "omit ident p t t' rp \<Longrightarrow> omit ident p (b # t) (b # t') rp"
proof (induction rule: omit.induct)
  case (here b' parent xs ys)
  from omit.here [OF here, of parent "b # xs" ys] show ?case by simp
next
  case (inside b' ks rp parent xs ys)
  from omit.inside [OF inside(1), of parent "b # xs" ys] show ?case by simp
qed

lemma removeLoop_present:
  "distinct (tree_ids t) \<Longrightarrow> ident \<in> set (tree_ids t) \<Longrightarrow>
     \<exists>t' rp. removeLoop t ident p acc [] = (acc @ t', rp) \<and> omit ident p t t' rp"
proof (induction t arbitrary: p acc rule: tree_induct)
  case Nil
  then show ?case by simp
next
  case (Cons c a kids rest)
  from Cons.prems(1) have dk: "distinct (tree_ids kids)" and dr: "distinct (tree_ids rest)"
    and disj: "set (tree_ids kids) \<inter> set (tree_ids rest) = {}"
    and cn: "c \<notin> set (tree_ids kids)" "c \<notin> set (tree_ids rest)"
    by auto
  consider (here) "c = ident"
    | (inside) "c \<noteq> ident" "ident \<in> set (tree_ids kids)"
    | (later) "c \<noteq> ident" "ident \<notin> set (tree_ids kids)" "ident \<in> set (tree_ids rest)"
    using Cons.prems(2) by auto
  then show ?case
  proof cases
    case here
    with cn have "ident \<notin> set (tree_ids rest)" by simp
    then have "removeLoop (Block c a kids # rest) ident p acc [] = (acc @ rest, p)"
      using here by (simp add: removeLoop_absent)
    moreover have "omit ident p (Block c a kids # rest) rest p"
      using omit.here [of "Block c a kids" ident p "[]" rest] here by simp
    ultimately show ?thesis by blast
  next
    case inside
    from Cons.IH(1) [OF dk inside(2), of c "[]"]
    obtain ks rp where ks: "removeLoop kids ident c [] [] = (ks, rp)"
      and om: "omit ident c kids ks rp" by auto
    from inside(2) disj have "ident \<notin> set (tree_ids rest)" by auto
    then have "removeLoop (Block c a kids # rest) ident p acc [] =
        (acc @ Block c a ks # rest, rp)"
      using inside ks by (auto simp add: removeLoop_absent)
    moreover have "omit ident p (Block c a kids # rest) (Block c a ks # rest) rp"
      using omit.inside [of ident "Block c a kids" ks rp p "[]" rest] om by simp
    ultimately show ?thesis by blast
  next
    case later
    from Cons.IH(2) [OF dr later(3), of p "acc @ [Block c a kids]"]
    obtain rest' rp where r: "removeLoop rest ident p (acc @ [Block c a kids]) [] =
        (acc @ Block c a kids # rest', rp)"
      and om: "omit ident p rest rest' rp" by auto
    have "removeLoop (Block c a kids # rest) ident p acc [] =
        (acc @ Block c a kids # rest', rp)"
      using later r by (cases "kids = []") (simp_all add: removeLoop_absent)
    moreover have "omit ident p (Block c a kids # rest) (Block c a kids # rest') rp"
      using om by (rule omit_Cons)
    ultimately show ?thesis by blast
  qed
qed

subsection \<open>addItemToTree\<close>

lemma addLoop_absent:
  "ident \<notin> set (tree_ids t) \<Longrightarrow> - 1 \<le> ti \<Longrightarrow>
     addLoop t ident item after p acc ti tid = (acc @ t, tid, ti)"
proof (induction t arbitrary: p acc ti tid rule: tree_induct)
  case Nil
  show ?case by simp
next
  case (Cons c a kids rest)
  from Cons.prems have c: "c \<noteq> ident" and k: "ident \<notin> set (tree_ids kids)"
    and r: "ident \<notin> set (tree_ids rest)" by auto
  have "addLoop kids ident item after c [] (- 1) [] = (kids, [], - 1)"
    using Cons.IH(1) [OF k, of "- 1" c "[]" "[]"] by simp
  then show ?case using c Cons.prems(2) by (simp add: Cons.IH(2) [OF r] max_def)
qed

lemma inserted_member:
  "inserted ident item after p t t' tid idx \<Longrightarrow> ident \<in> set (tree_ids t)"
proof (induction rule: inserted.induct)
  case (behind b parent xs ys)
  then show ?case by (cases b) auto
next
  case (before b parent xs ys)
  then show ?case by (cases b) auto
next
  case (inside b ks tid idx parent xs ys)
  then show ?case by (cases b) auto
qed

lemma inserted_Cons:
  assumes "inserted ident item after p t t' tid idx"
    and "count_list (tree_ids t) ident = 1"
  shows "inserted ident item after p (b # t) (b # t') tid
           (if ident \<in> clientId ` set t then idx + 1 else idx)"
  using assms
proof (cases rule: inserted.cases)
  case (behind b' xs ys)
  from inserted.behind [OF behind(5,6), of item p "b # xs" ys] behind
  show ?thesis by (auto simp: image_iff add.commute)
next
  case (before b' xs ys)
  from inserted.before [OF before(5,6), of item p "b # xs" ys] before
  show ?thesis by (auto simp: image_iff add.commute)
next
  case (inside b' ks xs ys)
  obtain c' a' kids' where b': "b' = Block c' a' kids'" by (cases b')
  from inside(3) have m: "ident \<in> set (tree_ids kids')"
    using inserted_member b' by fastforce
  then have pos: "count_list (tree_ids kids') ident > 0"
    using count_list_0_iff [of "tree_ids kids'" ident] by simp
  from assms(2) inside(1) b' pos
  have nx: "count_list (tree_ids xs) ident = 0" and ny: "count_list (tree_ids ys) ident = 0"
    and nc: "c' \<noteq> ident"
    by (auto split: if_splits)
  from nx ny have "ident \<notin> set (tree_ids xs)" "ident \<notin> set (tree_ids ys)"
    by (simp_all add: count_list_0_iff)
  with top_ids_subset have "ident \<notin> clientId ` set xs" "ident \<notin> clientId ` set ys"
    by blast+
  with nc inside(1) b' have top: "ident \<notin> clientId ` set t" by auto
  from inserted.inside [OF inside(3), of p "b # xs" ys] inside top
  show ?thesis by simp
qed

lemma addLoop_present:
  "count_list (tree_ids t) ident = 1 \<Longrightarrow>
     \<exists>t' tid idx. addLoop t ident item after p acc (- 1) [] =
         (acc @ t', tid, if ident \<in> clientId ` set t then int (length acc) + idx else idx)
        \<and> inserted ident item after p t t' tid idx \<and> 0 \<le> idx"
proof (induction t arbitrary: p acc rule: tree_induct)
  case Nil
  then show ?case by simp
next
  case (Cons c a kids rest)
  let ?b = "Block c a kids"
  consider (here) "c = ident" "ident \<notin> set (tree_ids kids)" "ident \<notin> set (tree_ids rest)"
    | (inside) "c \<noteq> ident" "count_list (tree_ids kids) ident = 1" "ident \<notin> set (tree_ids rest)"
    | (later) "c \<noteq> ident" "ident \<notin> set (tree_ids kids)" "count_list (tree_ids rest) ident = 1"
    using Cons.prems by (auto simp: count_list_0_iff split: if_splits)
      (metis add_is_1 count_list_0_iff)+
  then show ?case
  proof cases
    case here
    let ?t' = "if after then ?b # item # rest else item # ?b # rest"
    let ?idx = "if after then 1 else 0 :: int"
    have "addLoop (?b # rest) ident item after p acc (- 1) [] =
        (acc @ ?t', p, int (length acc) + ?idx)"
      using here by (simp add: addLoop_absent)
    moreover have "inserted ident item after p (?b # rest) ?t' p ?idx"
      using inserted.behind [of ?b ident after item p "[]" rest]
        inserted.before [of ?b ident after item p "[]" rest] here by simp
    ultimately show ?thesis using here(1)
      by (intro exI [of _ ?t'] exI [of _ p] exI [of _ ?idx]) simp
  next
    case inside
    from Cons.IH(1) [OF inside(2), of c "[]"]
    obtain ks tid idx where ks: "addLoop kids ident item after c [] (- 1) [] = (ks, tid, idx)"
      and ins: "inserted ident item after c kids ks tid idx" and idx: "0 \<le> idx"
      by (auto split: if_splits)
    from inside(2) have "kids \<noteq> []" by auto
    then have "addLoop (?b # rest) ident item after p acc (- 1) [] =
        (acc @ Block c a ks # rest, tid, idx)"
      using inside ks idx by (simp add: addLoop_absent max_def)
    moreover have "inserted ident item after p (?b # rest) (Block c a ks # rest) tid idx"
      using inserted.inside [of ident item after ?b ks tid idx p "[]" rest] ins by simp
    moreover have "ident \<notin> clientId ` set (?b # rest)"
      using inside(1,3) top_ids_subset [of rest] by auto
    ultimately show ?thesis using idx
      by (intro exI [of _ "Block c a ks # rest"] exI [of _ tid] exI [of _ idx]) simp
  next
    case later
    from Cons.IH(2) [OF later(3), of p "acc @ [?b]"]
    obtain rest' tid idx where r: "addLoop rest ident item after p (acc @ [?b]) (- 1) [] =
        (acc @ ?b # rest', tid,
         if ident \<in> clientId ` set rest then int (length acc) + 1 + idx else idx)"
      and ins: "inserted ident item after p rest rest' tid idx" and idx: "0 \<le> idx"
      by auto
    let ?idx = "if ident \<in> clientId ` set rest then idx + 1 else idx"
    have "addLoop (?b # rest) ident item after p acc (- 1) [] =
        (acc @ ?b # rest', tid,
         if ident \<in> clientId ` set rest then int (length acc) + 1 + idx else idx)"
      using later r by (cases "kids = []") (simp_all add: addLoop_absent)
    moreover have "inserted ident item after p (?b # rest) (?b # rest') tid ?idx"
      using inserted_Cons [OF ins later(3)] .
    moreover have "ident \<in> clientId ` set (?b # rest) \<longleftrightarrow> ident \<in> clientId ` set rest"
      using later(1) by auto
    ultimately show ?thesis using idx
      by (intro exI [of _ "?b # rest'"] exI [of _ tid] exI [of _ ?idx]) auto
  qed
qed

subsection \<open>Client ids under removal and insertion\<close>

lemma tree_ids_Cons_block: "tree_ids (b # t) = block_ids b @ tree_ids t"
  by (simp add: tree_ids_def)

lemma find_block_None_iff: "find_block ident t = None \<longleftrightarrow> ident \<notin> set (tree_ids t)"
  by (induction t rule: tree_induct) (auto split: option.splits)

lemma find_block_clientId: "find_block ident t = Some b \<Longrightarrow> clientId b = ident"
  by (induction t rule: tree_induct) (auto split: option.splits if_splits)

lemma find_block_append:
  "find_block ident (xs @ ys) =
     (case find_block ident xs of Some b \<Rightarrow> Some b | None \<Rightarrow> find_block ident ys)"
  by (induction xs rule: tree_induct) (auto split: option.splits)

lemma omit_member: "omit ident p t t' rp \<Longrightarrow> ident \<in> set (tree_ids t)"
proof (induction rule: omit.induct)
  case (here b parent xs ys)
  then show ?case by (cases b) auto
next
  case (inside b ks rp parent xs ys)
  then show ?case by (cases b) auto
qed

lemma omit_mset:
  "omit ident p t t' rp \<Longrightarrow> distinct (tree_ids t) \<Longrightarrow> find_block ident t = Some node \<Longrightarrow>
     mset (tree_ids t) = mset (tree_ids t') + mset (block_ids node)"
proof (induction arbitrary: node rule: omit.induct)
  case (here b parent xs ys)
  obtain c a kids where b: "b = Block c a kids" by (cases b)
  from here(2) b here(1) have "ident \<notin> set (tree_ids xs)" by auto
  then have "find_block ident xs = None" by (simp add: find_block_None_iff)
  with here(1,3) b have "node = b" by (simp add: find_block_append)
  then show ?case by (simp add: tree_ids_Cons_block)
next
  case (inside b ks rp parent xs ys)
  obtain c a kids where b: "b = Block c a kids" by (cases b)
  from inside(1) b have m: "ident \<in> set (tree_ids kids)" using omit_member by fastforce
  with inside(3) b have nx: "ident \<notin> set (tree_ids xs)" and nc: "c \<noteq> ident"
    and dk: "distinct (tree_ids kids)" by auto
  from nx have "find_block ident xs = None" by (simp add: find_block_None_iff)
  moreover from m have "find_block ident kids \<noteq> None" by (simp add: find_block_None_iff)
  ultimately have fk: "find_block ident (innerBlocks b) = Some node"
    using inside(4) b nc by (auto simp: find_block_append split: option.splits)
  from dk b have "distinct (tree_ids (innerBlocks b))" by simp
  from inside(2) [OF this fk] b
  have "mset (tree_ids kids) = mset (tree_ids ks) + mset (block_ids node)" by simp
  then show ?case using b by simp
qed

lemma inserted_mset:
  "inserted ident item after p t t' tid idx \<Longrightarrow>
     mset (tree_ids t') = mset (tree_ids t) + mset (block_ids item)"
proof (induction rule: inserted.induct)
  case (behind b parent xs ys)
  show ?case by (simp add: tree_ids_Cons_block)
next
  case (before b parent xs ys)
  show ?case by (simp add: tree_ids_Cons_block)
next
  case (inside b ks tid idx parent xs ys)
  then show ?case by (cases b) simp
qed

lemma distinct_count_list_1:
  "distinct xs \<Longrightarrow> x \<in> set xs \<Longrightarrow> count_list xs x = 1"
  by (induction xs) auto

subsection \<open>findFirstValidSibling\<close>

lemma siblingLoop_walk:
  assumes "\<forall>k\<in>fmdom' m. js_safe k"
  shows "\<exists>n::nat.
     (\<forall>j<n. \<exists>e. fmlookup m (i + iterate v * int j) = Some e
         \<and> \<not> (pos_dropSibling e \<and> pos_parentId e = pos_parentId cur))
     \<and> ((fmlookup m (i + iterate v * int n) = None \<and> siblingLoop m (Some cur) v i = Inr None)
        \<or> (\<exists>e. fmlookup m (i + iterate v * int n) = Some e
              \<and> pos_dropSibling e \<and> pos_parentId e = pos_parentId cur
              \<and> siblingLoop m (Some cur) v i = Inr (Some (e, i + iterate v * int n))))"
  using assms
proof (induction m "Some cur" v i rule: siblingLoop.induct)
  case (1 positions velocity index)
  let ?d = "iterate velocity"
  show ?case
  proof (cases "fmlookup positions index")
    case None
    then have "siblingLoop positions (Some cur) velocity index = Inr None"
      by (simp add: siblingLoop.simps)
    with None show ?thesis by (intro exI [of _ 0]) simp
  next
    case (Some e)
    then have safe: "js_safe index" using "1.prems" by (auto dest: fmdom'I)
    show ?thesis
    proof (cases "pos_dropSibling e \<and> pos_parentId e = pos_parentId cur")
      case True
      with Some have "siblingLoop positions (Some cur) velocity index = Inr (Some (e, index))"
        by (simp add: siblingLoop.simps)
      with Some True show ?thesis by (intro exI [of _ 0]) simp
    next
      case False
      with Some safe have step: "siblingLoop positions (Some cur) velocity index =
          siblingLoop positions (Some cur) velocity (index + ?d)"
        by (subst siblingLoop.simps) auto
      have "\<exists>n::nat.
         (\<forall>j<n. \<exists>e. fmlookup positions (index + ?d + ?d * int j) = Some e
             \<and> \<not> (pos_dropSibling e \<and> pos_parentId e = pos_parentId cur))
         \<and> ((fmlookup positions (index + ?d + ?d * int n) = None
               \<and> siblingLoop positions (Some cur) velocity (index + ?d) = Inr None)
            \<or> (\<exists>e. fmlookup positions (index + ?d + ?d * int n) = Some e
                  \<and> pos_dropSibling e \<and> pos_parentId e = pos_parentId cur
                  \<and> siblingLoop positions (Some cur) velocity (index + ?d) =
                      Inr (Some (e, index + ?d + ?d * int n))))"
      proof (cases "pos_dropSibling e")
        case True
        with False have "pos_parentId e \<noteq> pos_parentId cur" by simp
        from "1.hyps"(1) [OF Some True refl this safe "1.prems"] show ?thesis .
      next
        case False
        from "1.hyps"(2) [OF Some False safe "1.prems"] show ?thesis .
      qed
      then obtain n :: nat where
        skip: "\<forall>j<n. \<exists>e. fmlookup positions (index + ?d + ?d * int j) = Some e
             \<and> \<not> (pos_dropSibling e \<and> pos_parentId e = pos_parentId cur)"
        and stop: "(fmlookup positions (index + ?d + ?d * int n) = None
               \<and> siblingLoop positions (Some cur) velocity (index + ?d) = Inr None)
            \<or> (\<exists>e. fmlookup positions (index + ?d + ?d * int n) = Some e
                  \<and> pos_dropSibling e \<and> pos_parentId e = pos_parentId cur
                  \<and> siblingLoop positions (Some cur) velocity (index + ?d) =
                      Inr (Some (e, index + ?d + ?d * int n)))"
        by blast
      have shift: "\<And>k::nat. index + ?d + ?d * int k = index + ?d * int (Suc k)"
        by (simp add: algebra_simps)
      have "\<forall>j<Suc n. \<exists>e. fmlookup positions (index + ?d * int j) = Some e
             \<and> \<not> (pos_dropSibling e \<and> pos_parentId e = pos_parentId cur)"
      proof (intro allI impI)
        fix j assume "j < Suc n"
        show "\<exists>e. fmlookup positions (index + ?d * int j) = Some e
             \<and> \<not> (pos_dropSibling e \<and> pos_parentId e = pos_parentId cur)"
        proof (cases j)
          case 0
          with Some False show ?thesis by simp
        next
          case (Suc k)
          with \<open>j < Suc n\<close> have "k < n" by simp
          with skip have "\<exists>e. fmlookup positions (index + ?d + ?d * int k) = Some e
             \<and> \<not> (pos_dropSibling e \<and> pos_parentId e = pos_parentId cur)" by blast
          then show ?thesis unfolding shift Suc .
        qed
      qed
      moreover from stop have "(fmlookup positions (index + ?d * int (Suc n)) = None
               \<and> siblingLoop positions (Some cur) velocity index = Inr None)
            \<or> (\<exists>e. fmlookup positions (index + ?d * int (Suc n)) = Some e
                  \<and> pos_dropSibling e \<and> pos_parentId e = pos_parentId cur
                  \<and> siblingLoop positions (Some cur) velocity index =
                      Inr (Some (e, index + ?d * int (Suc n))))"
        unfolding step shift .
      ultimately show ?thesis by blast
    qed
  qed
qed

lemma siblingLoop_ahead:
  "siblingLoop m cp v i0 = Inr (Some (e, i)) \<Longrightarrow>
     (if v > 0 then i0 \<le> i else i \<le> i0) \<and> fmlookup m i = Some e \<and> pos_dropSibling e"
proof (induction m cp v i0 rule: siblingLoop.induct)
  case (1 positions currentPosition velocity index)
  from "1.prems" obtain p where p: "fmlookup positions index = Some p"
    by (subst (asm) siblingLoop.simps) (auto split: option.splits)
  show ?case
  proof (cases "pos_dropSibling p")
    case True
    with "1.prems" p obtain cur where cur: "currentPosition = Some cur"
      by (subst (asm) siblingLoop.simps) (auto split: option.splits)
    show ?thesis
    proof (cases "pos_parentId p = pos_parentId cur")
      case same: True
      with "1.prems" p True cur have "e = p" "i = index"
        by (subst (asm) siblingLoop.simps, simp)+
      with p True show ?thesis by simp
    next
      case False
      with "1.prems" p True cur
      have safe: "js_safe index"
        and "siblingLoop positions currentPosition velocity (index + iterate velocity) =
          Inr (Some (e, i))"
        by (subst (asm) siblingLoop.simps, simp split: if_splits)+
      from "1.IH"(1) [OF p True cur False this] show ?thesis
        by (auto simp: iterate_def split: if_splits)
    qed
  next
    case False
    with "1.prems" p
    have safe: "js_safe index"
      and "siblingLoop positions currentPosition velocity (index + iterate velocity) =
        Inr (Some (e, i))"
      by (subst (asm) siblingLoop.simps, simp split: if_splits)+
    from "1.IH"(2) [OF p False this] show ?thesis
      by (auto simp: iterate_def split: if_splits)
  qed
qed

lemma example_positions_lookup:
  "fmlookup example_positions k =
     (if k = 4 then Some \<lparr>pos_clientId = ''B'', pos_dropContainer = True,
             pos_dropSibling = False, pos_parentId = None\<rparr>
      else if k = 3 then Some \<lparr>pos_clientId = ''a3'', pos_dropContainer = False,
             pos_dropSibling = True, pos_parentId = Some ''A''\<rparr>
      else if k = 2 then Some \<lparr>pos_clientId = ''a2'', pos_dropContainer = False,
             pos_dropSibling = False, pos_parentId = Some ''A''\<rparr>
      else if k = 1 then Some \<lparr>pos_clientId = ''a1'', pos_dropContainer = False,
             pos_dropSibling = True, pos_parentId = Some ''A''\<rparr>
      else if k = 0 then Some \<lparr>pos_clientId = ''A'', pos_dropContainer = True,
             pos_dropSibling = False, pos_parentId = None\<rparr>
      else None)"
  by (simp add: example_positions_def setPosition_def)

lemma example_positions_keys: "fmdom' example_positions = {0, 1, 2, 3, 4}"
  by (auto simp: example_positions_def setPosition_def)

lemma example_sibling_down:
  "findFirstValidSibling example_positions 1 1 =
     Inr (Some (\<lparr>pos_clientId = ''a3'', pos_dropContainer = False,
                  pos_dropSibling = True, pos_parentId = Some ''A''\<rparr>, 3))"
  by (simp add: findFirstValidSibling_def iterate_def js_safe_def siblingLoop.simps
      example_positions_lookup)

lemma example_sibling_up:
  "findFirstValidSibling example_positions 3 (- 1) =
     Inr (Some (\<lparr>pos_clientId = ''a1'', pos_dropContainer = False,
                  pos_dropSibling = True, pos_parentId = Some ''A''\<rparr>, 1))"
  by (simp add: findFirstValidSibling_def iterate_def js_safe_def siblingLoop.simps
      example_positions_lookup)

lemma example_sibling_end:
  "findFirstValidSibling example_positions 4 1 = Inr None"
  by (simp add: findFirstValidSibling_def iterate_def js_safe_def siblingLoop.simps
      example_positions_lookup)

subsection \<open>addChildItemToTree\<close>






subsection \<open>moveItem\<close>




lemma flat_view_drag_B_below_C:
  "moveItem flat_view (Block ''B'' () []) 20 0 1 (Some 1) =
     Inr (flat_view
           \<lparr>lastTarget := Some \<lparr>lt_clientId = ''B'', lt_originalParent = [],
                                lt_targetId = [], lt_targetIndex = 2\<rparr>,
            tree := [Block ''A'' () [], Block ''C'' () [], Block ''B'' () []]\<rparr>)"
  by (simp add: moveItem_def Let_def ITEM_HEIGHT_def UPDATE_PARENT_THRESHOLD_def
      findFirstValidSibling_def iterate_def js_safe_def siblingLoop.simps
      flat_view_def setPosition_def insertBeside_def removeItemFromTree_def addItemToTree_def)

subsection \<open>The operations on the store\<close>

text \<open>
  \<open>removeItemFromTree\<close> and \<open>addItemToTree\<close> only create objects: the store they
  return is the store they got, with new objects behind it.
\<close>

lemma removeLoop_h_extends:
  "removeLoop_h fuel h t ident p acc rp = Some (h', t', rp') \<Longrightarrow> \<exists>ext. h' = h @ ext"
proof (induction fuel arbitrary: h t p acc rp h' t' rp' rule: less_induct)
  case (less fuel)
  from less.prems show ?case
  proof (induction t arbitrary: h acc rp)
    case Nil
    then show ?case by simp
  next
    case (Cons r rest)
    from Cons.prems obtain block where ld: "load h r = Some block"
      by (auto split: option.splits)
    show ?case
    proof (cases "node_clientId block = ident")
      case True
      with Cons.prems ld have "removeLoop_h fuel h rest ident p acc p = Some (h', t', rp')"
        by simp
      then show ?thesis by (rule Cons.IH)
    next
      case ne: False
      show ?thesis
      proof (cases "node_innerBlocks block = []")
        case True
        with Cons.prems ld ne
        have "removeLoop_h fuel (h @ [block]) rest ident p (acc @ [length h]) rp =
            Some (h', t', rp')"
          by (simp add: alloc_def)
        from Cons.IH [OF this] show ?thesis by auto
      next
        case False
        with Cons.prems ld ne obtain fuel' where fuel: "fuel = Suc fuel'"
          by (cases fuel) auto
        with Cons.prems ld ne False obtain h1 ib crp where
          rec: "removeLoop_h fuel' h (node_innerBlocks block) ident (node_clientId block) [] [] =
            Some (h1, ib, crp)"
          by (auto split: option.splits)
        from less.IH [OF _ rec] fuel obtain e1 where h1: "h1 = h @ e1" by auto
        from Cons.prems ld ne False fuel rec obtain block1 where ld1: "load h1 r = Some block1"
          by (auto split: option.splits)
        let ?h2 = "h1 @ [block1\<lparr>node_innerBlocks := ib\<rparr>]"
        from Cons.prems ld ne False fuel rec ld1
        have "removeLoop_h fuel ?h2 rest ident p (acc @ [length h1])
            (if crp \<noteq> [] then crp else rp) = Some (h', t', rp')"
          by (simp add: alloc_def)
        from Cons.IH [OF this] obtain e2 where "h' = ?h2 @ e2" by blast
        with h1 show ?thesis by simp
      qed
    qed
  qed
qed

lemma addLoop_h_extends:
  "addLoop_h fuel h t ident item after p acc ti tid = Some (h', t', tid', ti') \<Longrightarrow>
     \<exists>ext. h' = h @ ext"
proof (induction fuel arbitrary: h t p acc ti tid h' t' tid' ti' rule: less_induct)
  case (less fuel)
  from less.prems show ?case
  proof (induction t arbitrary: h acc ti tid)
    case Nil
    then show ?case by simp
  next
    case (Cons r rest)
    from Cons.prems obtain block where ld: "load h r = Some block"
      by (auto split: option.splits)
    show ?case
    proof (cases "node_clientId block = ident")
      case True
      with Cons.prems ld obtain itemObj where it: "load h item = Some itemObj"
        by (auto split: option.splits)
      show ?thesis
      proof (cases after)
        case after: True
        with Cons.prems ld True it
        have "addLoop_h fuel (h @ [block] @ [itemObj]) rest ident item after p
            (acc @ [length h] @ [Suc (length h)]) (int (length acc) + 1) p =
            Some (h', t', tid', ti')"
          by (simp add: alloc_def)
        from Cons.IH [OF this] show ?thesis by auto
      next
        case before: False
        with Cons.prems ld True it
        have "addLoop_h fuel (h @ [itemObj] @ [block]) rest ident item after p
            (acc @ [length h] @ [Suc (length h)]) (int (length acc)) p =
            Some (h', t', tid', ti')"
          by (simp add: alloc_def)
        from Cons.IH [OF this] show ?thesis by auto
      qed
    next
      case ne: False
      show ?thesis
      proof (cases "node_innerBlocks block = []")
        case True
        with Cons.prems ld ne
        have "addLoop_h fuel (h @ [block]) rest ident item after p (acc @ [length h]) ti tid =
            Some (h', t', tid', ti')"
          by (simp add: alloc_def)
        from Cons.IH [OF this] show ?thesis by auto
      next
        case False
        with Cons.prems ld ne obtain fuel' where fuel: "fuel = Suc fuel'"
          by (cases fuel) auto
        with Cons.prems ld ne False obtain h1 ib ctid cti where
          rec: "addLoop_h fuel' h (node_innerBlocks block) ident item after
              (node_clientId block) [] (- 1) [] = Some (h1, ib, ctid, cti)"
          by (auto split: option.splits)
        from less.IH [OF _ rec] fuel obtain e1 where h1: "h1 = h @ e1" by auto
        from Cons.prems ld ne False fuel rec obtain block1 where ld1: "load h1 r = Some block1"
          by (auto split: option.splits)
        let ?h2 = "h1 @ [block1\<lparr>node_innerBlocks := ib\<rparr>]"
        from Cons.prems ld ne False fuel rec ld1
        have "addLoop_h fuel ?h2 rest ident item after p (acc @ [length h1])
            (max ti cti) (if ctid \<noteq> [] then ctid else tid) = Some (h', t', tid', ti')"
          by (simp add: alloc_def)
        from Cons.IH [OF this] obtain e2 where "h' = ?h2 @ e2" by blast
        with h1 show ?thesis by simp
      qed
    qed
  qed
qed

lemma removeItemFromTree_h_frame:
  assumes "removeItemFromTree_h fuel h t ident p = Some (h', t', rp)" and "r < length h"
  shows "load h' r = load h r"
proof -
  from assms(1) obtain ext where "h' = h @ ext"
    unfolding removeItemFromTree_h_def using removeLoop_h_extends by blast
  with assms(2) show ?thesis by (simp add: load_def nth_append)
qed

lemma addItemToTree_h_frame:
  assumes "addItemToTree_h fuel h t ident item after p = Some (h', t', tid, ti)"
    and "r < length h"
  shows "load h' r = load h r"
proof -
  from assms(1) obtain ext where "h' = h @ ext"
    unfolding addItemToTree_h_def using addLoop_h_extends by blast
  with assms(2) show ?thesis by (simp add: load_def nth_append)
qed

lemma example_heap_tree:
  "reify 2 example_heap [0, 2] = Some [Block ''A'' () [Block ''B'' () []], Block ''C'' () []]"
  by (simp add: example_heap_def load_def numeral_2_eq_2)

lemma example_heap_remove:
  "removeItemFromTree_h 1 example_heap [0, 2] ''B'' [] =
     Some (example_heap @
             [\<lparr>node_clientId = ''A'', node_attrs = (), node_innerBlocks = []\<rparr>,
              \<lparr>node_clientId = ''C'', node_attrs = (), node_innerBlocks = []\<rparr>],
           [4, 5], ''A'')"
  by (simp add: removeItemFromTree_h_def example_heap_def load_def alloc_def)

lemma example_heap_add:
  "addItemToTree_h 1 example_heap [0, 2] ''B'' 3 True [] =
     Some (example_heap @
             [\<lparr>node_clientId = ''B'', node_attrs = (), node_innerBlocks = []\<rparr>,
              \<lparr>node_clientId = ''X'', node_attrs = (), node_innerBlocks = []\<rparr>,
              \<lparr>node_clientId = ''A'', node_attrs = (), node_innerBlocks = [4, 5]\<rparr>,
              \<lparr>node_clientId = ''C'', node_attrs = (), node_innerBlocks = []\<rparr>],
           [6, 7], ''A'', 1)"
  by (simp add: addItemToTree_h_def example_heap_def load_def alloc_def)

lemma load_append: "load h r = Some n \<Longrightarrow> load (h @ ext) r = Some n"
  by (auto simp: load_def nth_append split: if_splits)

lemma load_new [simp]: "load (h @ [n]) (length h) = Some n"
  by (simp add: load_def)

lemma reify_Cons_Some:
  "reify fuel h (r # rest) = Some T \<longleftrightarrow>
     (\<exists>block fuel' K R. load h r = Some block \<and> fuel = Suc fuel'
        \<and> reify fuel' h (node_innerBlocks block) = Some K \<and> reify fuel h rest = Some R
        \<and> T = Block (node_clientId block) (node_attrs block) K # R)"
  by (auto split: option.splits nat.splits)

lemma reify_extend:
  "reify fuel h t = Some T \<Longrightarrow> reify fuel (h @ ext) t = Some T"
proof (induction fuel h t arbitrary: T rule: reify.induct)
  case (1 fuel h)
  then show ?case by simp
next
  case (2 fuel h r rest)
  from "2.prems" obtain block fuel' K R where ld: "load h r = Some block"
    and fuel: "fuel = Suc fuel'"
    and k: "reify fuel' h (node_innerBlocks block) = Some K"
    and r: "reify fuel h rest = Some R"
    and T: "T = Block (node_clientId block) (node_attrs block) K # R"
    unfolding reify_Cons_Some by blast
  from "2.IH"(1) [OF ld fuel k] have "reify fuel' (h @ ext) (node_innerBlocks block) = Some K" .
  moreover from "2.IH"(2) [OF ld fuel k r] have "reify fuel (h @ ext) rest = Some R" .
  ultimately show ?case using load_append [OF ld, of ext] fuel T by simp
qed

lemma reify_append:
  "reify fuel h xs = Some X \<Longrightarrow> reify fuel h ys = Some Y \<Longrightarrow>
     reify fuel h (xs @ ys) = Some (X @ Y)"
proof (induction xs arbitrary: X)
  case Nil
  then show ?case by simp
next
  case (Cons r rest)
  from Cons.prems(1) obtain block fuel' K R where ld: "load h r = Some block"
    and fuel: "fuel = Suc fuel'"
    and k: "reify fuel' h (node_innerBlocks block) = Some K"
    and r: "reify fuel h rest = Some R"
    and X: "X = Block (node_clientId block) (node_attrs block) K # R"
    unfolding reify_Cons_Some by blast
  from Cons.IH [OF r Cons.prems(2)] ld fuel k X show ?case by simp
qed

lemma reify_Nil_iff: "reify fuel h t = Some [] \<longleftrightarrow> t = []"
  by (cases t) (auto split: option.splits nat.splits)

lemma removeLoop_h_refines:
  assumes "reify fuel h t = Some T" and "reify fuel h acc = Some ACC"
  shows "\<exists>h' t'. removeLoop_h fuel h t ident p acc rp =
            Some (h', t', snd (removeLoop T ident p ACC rp))
          \<and> reify fuel h' t' = Some (fst (removeLoop T ident p ACC rp))"
  using assms
proof (induction fuel arbitrary: h t T acc ACC p rp rule: less_induct)
  case (less fuel)
  from less.prems show ?case
  proof (induction t arbitrary: h T acc ACC rp)
    case Nil
    then show ?case by simp
  next
    case (Cons r rest)
    from Cons.prems(1) obtain block fuel' K R where ld: "load h r = Some block"
      and fuel: "fuel = Suc fuel'"
      and k: "reify fuel' h (node_innerBlocks block) = Some K"
      and r: "reify fuel h rest = Some R"
      and T: "T = Block (node_clientId block) (node_attrs block) K # R"
      unfolding reify_Cons_Some by blast
    let ?c = "node_clientId block" and ?a = "node_attrs block"
    show ?case
    proof (cases "?c = ident")
      case True
      from Cons.IH [OF r Cons.prems(2), of p] True ld T show ?thesis by simp
    next
      case ne: False
      show ?thesis
      proof (cases "node_innerBlocks block = []")
        case True
        with k have K: "K = []" by simp
        let ?h1 = "h @ [block]"
        have "reify fuel ?h1 [length h] = Some [Block ?c ?a []]"
          using fuel True by simp
        with reify_extend [OF Cons.prems(2), of "[block]"]
        have acc': "reify fuel ?h1 (acc @ [length h]) = Some (ACC @ [Block ?c ?a []])"
          by (rule reify_append)
        from Cons.IH [OF reify_extend [OF r] acc', of rp] ne True ld T K
        show ?thesis by (simp add: alloc_def)
      next
        case False
        with k have K: "K \<noteq> []" using reify_Nil_iff [of fuel' h "node_innerBlocks block"] by auto
        have "fuel' < fuel" using fuel by simp
        have "reify fuel' h [] = Some []" by simp
        from less.IH [OF \<open>fuel' < fuel\<close> k this, where p = ?c and rp = "[]"]
        obtain h1 ib where rec: "removeLoop_h fuel' h (node_innerBlocks block) ident ?c [] [] =
            Some (h1, ib, snd (removeLoop K ident ?c [] []))"
          and ib: "reify fuel' h1 ib = Some (fst (removeLoop K ident ?c [] []))"
          by auto
        from removeLoop_h_extends [OF rec] obtain e1 where h1: "h1 = h @ e1" by blast
        let ?K' = "fst (removeLoop K ident ?c [] [])"
        let ?crp = "snd (removeLoop K ident ?c [] [])"
        let ?h2 = "h1 @ [block\<lparr>node_innerBlocks := ib\<rparr>]"
        have ld1: "load h1 r = Some block" unfolding h1 using ld by (rule load_append)
        have "reify fuel ?h2 [length h1] = Some [Block ?c ?a ?K']"
          using fuel reify_extend [OF ib, of "[block\<lparr>node_innerBlocks := ib\<rparr>]"] by simp
        moreover have "reify fuel ?h2 acc = Some ACC"
          using reify_extend [OF Cons.prems(2), of "e1 @ [block\<lparr>node_innerBlocks := ib\<rparr>]"] h1
          by simp
        ultimately have acc': "reify fuel ?h2 (acc @ [length h1]) = Some (ACC @ [Block ?c ?a ?K'])"
          by (rule reify_append [rotated])
        have r2: "reify fuel ?h2 rest = Some R"
          using reify_extend [OF r, of "e1 @ [block\<lparr>node_innerBlocks := ib\<rparr>]"] h1 by simp
        from Cons.IH [OF r2 acc', of "if ?crp \<noteq> [] then ?crp else rp"] ne False ld T K fuel rec ld1
        show ?thesis by (simp add: alloc_def split_beta)
      qed
    qed
  qed
qed

lemma reify_mono:
  "reify fuel h t = Some T \<Longrightarrow> fuel \<le> fuel2 \<Longrightarrow> reify fuel2 h t = Some T"
proof (induction fuel h t arbitrary: T fuel2 rule: reify.induct)
  case (1 fuel h)
  then show ?case by simp
next
  case (2 fuel h r rest)
  from "2.prems"(1) obtain block fuel' K R where ld: "load h r = Some block"
    and fuel: "fuel = Suc fuel'"
    and k: "reify fuel' h (node_innerBlocks block) = Some K"
    and r: "reify fuel h rest = Some R"
    and T: "T = Block (node_clientId block) (node_attrs block) K # R"
    unfolding reify_Cons_Some by blast
  from "2.prems"(2) fuel obtain fuel2' where f2: "fuel2 = Suc fuel2'" and le: "fuel' \<le> fuel2'"
    by (cases fuel2) auto
  from "2.IH"(1) [OF ld fuel k le]
  have "reify fuel2' h (node_innerBlocks block) = Some K" .
  moreover from "2.IH"(2) [OF ld fuel k r "2.prems"(2)] have "reify fuel2 h rest = Some R" .
  ultimately show ?case using ld f2 T by simp
qed

lemma reify_length: "reify fuel h t = Some T \<Longrightarrow> length T = length t"
proof (induction t arbitrary: T)
  case Nil
  then show ?case by simp
next
  case (Cons r rest)
  then show ?case unfolding reify_Cons_Some by auto
qed

lemma reify_copy:
  assumes "load h r = Some block" and "reify fuel h [r] = Some [B]"
  shows "reify fuel (h @ [block]) [length h] = Some [B]"
proof -
  from assms obtain fuel' K where fuel: "fuel = Suc fuel'"
    and k: "reify fuel' h (node_innerBlocks block) = Some K"
    and B: "B = Block (node_clientId block) (node_attrs block) K"
    unfolding reify_Cons_Some by auto
  from reify_extend [OF k, of "[block]"] fuel B show ?thesis by simp
qed

lemma addLoop_h_refines:
  assumes "reify fuel h t = Some T" and "reify (fuel + fi) h acc = Some ACC"
    and "reify fi h [item] = Some [ITEM]"
  shows "\<exists>h' t'. addLoop_h fuel h t ident item after p acc ti tid =
            Some (h', t', snd (addLoop T ident ITEM after p ACC ti tid))
          \<and> reify (fuel + fi) h' t' = Some (fst (addLoop T ident ITEM after p ACC ti tid))"
  using assms
proof (induction fuel arbitrary: h t T acc ACC p ti tid rule: less_induct)
  case (less fuel)
  from less.prems show ?case
  proof (induction t arbitrary: h T acc ACC ti tid)
    case Nil
    then show ?case by simp
  next
    case (Cons r rest)
    from Cons.prems(1) obtain block fuel' K R where ld: "load h r = Some block"
      and fuel: "fuel = Suc fuel'"
      and k: "reify fuel' h (node_innerBlocks block) = Some K"
      and r: "reify fuel h rest = Some R"
      and T: "T = Block (node_clientId block) (node_attrs block) K # R"
      unfolding reify_Cons_Some by blast
    let ?c = "node_clientId block" and ?a = "node_attrs block"
    from Cons.prems(3) obtain itemObj where it: "load h item = Some itemObj"
      unfolding reify_Cons_Some by auto
    have len: "length ACC = length acc" using Cons.prems(2) by (rule reify_length)
    have item_big: "reify (fuel + fi) h [item] = Some [ITEM]"
      using Cons.prems(3) by (rule reify_mono) simp
    have blk: "reify (fuel + fi) h [r] = Some [Block ?c ?a K]"
      using reify_mono [OF k, of "fuel' + fi"] ld fuel by simp
    show ?case
    proof (cases "?c = ident")
      case True
      show ?thesis
      proof (cases after)
        case after: True
        let ?h2 = "h @ [block] @ [itemObj]"
        have b2: "reify (fuel + fi) ?h2 [length h] = Some [Block ?c ?a K]"
          using reify_extend [OF reify_copy [OF ld blk], of "[itemObj]"] by simp
        have "load (h @ [block]) item = Some itemObj" using it by (rule load_append)
        moreover have "reify (fuel + fi) (h @ [block]) [item] = Some [ITEM]"
          using item_big by (rule reify_extend)
        ultimately have i2: "reify (fuel + fi) ?h2 [Suc (length h)] = Some [ITEM]"
          using reify_copy [of "h @ [block]" item itemObj "fuel + fi" ITEM] by simp
        have "reify (fuel + fi) ?h2 acc = Some ACC"
          using Cons.prems(2) by (rule reify_extend)
        from reify_append [OF this reify_append [OF b2 i2]]
        have acc': "reify (fuel + fi) ?h2 (acc @ [length h] @ [Suc (length h)]) =
            Some (ACC @ [Block ?c ?a K] @ [ITEM])" by simp
        have i3: "reify fi ?h2 [item] = Some [ITEM]" using Cons.prems(3) by (rule reify_extend)
        from Cons.IH [OF reify_extend [OF r] acc' i3, of "int (length acc) + 1" p]
          True after ld it T len
        show ?thesis by (simp add: alloc_def)
      next
        case before: False
        let ?h2 = "h @ [itemObj] @ [block]"
        have i2: "reify (fuel + fi) ?h2 [length h] = Some [ITEM]"
          using reify_extend [OF reify_copy [OF it item_big], of "[block]"] by simp
        have "load (h @ [itemObj]) r = Some block" using ld by (rule load_append)
        moreover have "reify (fuel + fi) (h @ [itemObj]) [r] = Some [Block ?c ?a K]"
          using blk by (rule reify_extend)
        ultimately have b2: "reify (fuel + fi) ?h2 [Suc (length h)] = Some [Block ?c ?a K]"
          using reify_copy [of "h @ [itemObj]" r block "fuel + fi" "Block ?c ?a K"] by simp
        have "reify (fuel + fi) ?h2 acc = Some ACC"
          using Cons.prems(2) by (rule reify_extend)
        from reify_append [OF this reify_append [OF i2 b2]]
        have acc': "reify (fuel + fi) ?h2 (acc @ [length h] @ [Suc (length h)]) =
            Some (ACC @ [ITEM] @ [Block ?c ?a K])" by simp
        have i3: "reify fi ?h2 [item] = Some [ITEM]" using Cons.prems(3) by (rule reify_extend)
        from Cons.IH [OF reify_extend [OF r] acc' i3, of "int (length acc)" p]
          True before ld it T len
        show ?thesis by (simp add: alloc_def)
      qed
    next
      case ne: False
      show ?thesis
      proof (cases "node_innerBlocks block = []")
        case True
        with k have K: "K = []" by simp
        let ?h1 = "h @ [block]"
        have "reify (fuel + fi) ?h1 [length h] = Some [Block ?c ?a []]"
          using reify_copy [OF ld blk] K by simp
        with reify_extend [OF Cons.prems(2), of "[block]"]
        have acc': "reify (fuel + fi) ?h1 (acc @ [length h]) = Some (ACC @ [Block ?c ?a []])"
          by (rule reify_append)
        have i3: "reify fi ?h1 [item] = Some [ITEM]" using Cons.prems(3) by (rule reify_extend)
        from Cons.IH [OF reify_extend [OF r] acc' i3, of ti tid] ne True ld T K
        show ?thesis by (simp add: alloc_def)
      next
        case False
        with k have K: "K \<noteq> []" using reify_Nil_iff [of fuel' h "node_innerBlocks block"] by auto
        have e: "reify (fuel' + fi) h [] = Some []" by simp
        from less.IH [OF _ k e Cons.prems(3), where p = ?c and ti = "- 1" and tid = "[]"] fuel
        obtain h1 ib where rec: "addLoop_h fuel' h (node_innerBlocks block) ident item after ?c []
              (- 1) [] = Some (h1, ib, snd (addLoop K ident ITEM after ?c [] (- 1) []))"
          and ib: "reify (fuel' + fi) h1 ib = Some (fst (addLoop K ident ITEM after ?c [] (- 1) []))"
          by auto
        obtain K' ctid cti where val: "addLoop K ident ITEM after ?c [] (- 1) [] = (K', ctid, cti)"
          by (cases "addLoop K ident ITEM after ?c [] (- 1) []")
        from rec val have rec': "addLoop_h fuel' h (node_innerBlocks block) ident item after ?c []
              (- 1) [] = Some (h1, ib, ctid, cti)" by simp
        from ib val have ib': "reify (fuel' + fi) h1 ib = Some K'" by simp
        from addLoop_h_extends [OF rec'] obtain e1 where h1: "h1 = h @ e1" by blast
        let ?h2 = "h1 @ [block\<lparr>node_innerBlocks := ib\<rparr>]"
        have ld1: "load h1 r = Some block" unfolding h1 using ld by (rule load_append)
        have "reify (fuel + fi) ?h2 [length h1] = Some [Block ?c ?a K']"
          using fuel reify_extend [OF ib', of "[block\<lparr>node_innerBlocks := ib\<rparr>]"] by simp
        moreover have "reify (fuel + fi) ?h2 acc = Some ACC"
          using reify_extend [OF Cons.prems(2), of "e1 @ [block\<lparr>node_innerBlocks := ib\<rparr>]"] h1
          by simp
        ultimately have acc': "reify (fuel + fi) ?h2 (acc @ [length h1]) =
            Some (ACC @ [Block ?c ?a K'])"
          by (rule reify_append [rotated])
        have r2: "reify fuel ?h2 rest = Some R"
          using reify_extend [OF r, of "e1 @ [block\<lparr>node_innerBlocks := ib\<rparr>]"] h1 by simp
        have i3: "reify fi ?h2 [item] = Some [ITEM]"
          using reify_extend [OF Cons.prems(3), of "e1 @ [block\<lparr>node_innerBlocks := ib\<rparr>]"] h1
          by simp
        from Cons.IH [OF r2 acc' i3, of "max ti cti" "if ctid \<noteq> [] then ctid else tid"]
          ne False ld T K fuel rec' ld1 val
        show ?thesis by (simp add: alloc_def)
      qed
    qed
  qed
qed

text \<open>
  On a store that holds the tree \<open>T\<close> behind the references \<open>t\<close>, both operations
  return, their results hold the trees computed on values, and every object of the
  store they were given is as it was.
\<close>

lemma removeItemFromTree_h_pure:
  assumes "reify fuel h t = Some T"
  shows "\<exists>h' t'. removeItemFromTree_h fuel h t ident p =
            Some (h', t', snd (removeItemFromTree T ident p))
          \<and> reify fuel h' t' = Some (fst (removeItemFromTree T ident p))
          \<and> (\<forall>r<length h. load h' r = load h r)"
proof -
  have "reify fuel h [] = Some []" by simp
  from removeLoop_h_refines [OF assms this, of ident p "[]"]
  obtain h' t' where run: "removeItemFromTree_h fuel h t ident p =
            Some (h', t', snd (removeItemFromTree T ident p))"
    and val: "reify fuel h' t' = Some (fst (removeItemFromTree T ident p))"
    by (auto simp: removeItemFromTree_h_def removeItemFromTree_def)
  from removeItemFromTree_h_frame [OF run] run val show ?thesis by blast
qed

lemma addItemToTree_h_pure:
  assumes "reify fuel h t = Some T" and "reify fi h [item] = Some [ITEM]"
  shows "\<exists>h' t'. addItemToTree_h fuel h t ident item after p =
            Some (h', t', snd (addItemToTree T ident ITEM after p))
          \<and> reify (fuel + fi) h' t' = Some (fst (addItemToTree T ident ITEM after p))
          \<and> (\<forall>r<length h. load h' r = load h r)"
proof -
  have "reify (fuel + fi) h [] = Some []" by simp
  from addLoop_h_refines [OF assms(1) this assms(2), of ident after p "- 1" "[]"]
  obtain h' t' where run: "addItemToTree_h fuel h t ident item after p =
            Some (h', t', snd (addItemToTree T ident ITEM after p))"
    and val: "reify (fuel + fi) h' t' = Some (fst (addItemToTree T ident ITEM after p))"
    by (auto simp: addItemToTree_h_def addItemToTree_def)
  obtain tid ti where "snd (addItemToTree T ident ITEM after p) = (tid, ti)"
    by (cases "snd (addItemToTree T ident ITEM after p)")
  with run have "addItemToTree_h fuel h t ident item after p = Some (h', t', tid, ti)" by simp
  from addItemToTree_h_frame [OF this] run val show ?thesis by blast
qed

section \<open>Properties of the list view\<close>

text \<open>
  C8. For every tree and every id that no node of the tree carries,
  \<open>removeItemFromTree\<close> returns a tree equal to its argument and the empty
  removed-parent id.
\<close>

theorem remove_absent_is_noop:
  "ident \<notin> set (tree_ids t) \<Longrightarrow> removeItemFromTree t ident [] = (t, [])"
  by (simp add: removeItemFromTree_def removeLoop_absent)

theorem remove_absent_is_noop_witness:
  "''nonexistent'' \<notin> set (tree_ids [Block ''A'' () [Block ''B'' () []], Block ''C'' () []])
   \<and> removeItemFromTree [Block ''A'' () [Block ''B'' () []], Block ''C'' () []] ''nonexistent'' []
       = ([Block ''A'' () [Block ''B'' () []], Block ''C'' () []], [])"
proof -
  have h: "''nonexistent'' \<notin> set (tree_ids [Block ''A'' () [Block ''B'' () []], Block ''C'' () []])"
    by simp
  from h remove_absent_is_noop [OF h] show ?thesis by (rule conjI)
qed

text \<open>
  C7. For every tree with unique client ids that contains a node with the target id,
  \<open>removeItemFromTree\<close> returns the tree with that node, subtree included, left out of
  its sibling sequence and all other nodes in place, and returns the client id of the
  node's parent, or the empty string when the node was a root.
\<close>

theorem remove_present_omits_node:
  assumes "distinct (tree_ids t)" and "ident \<in> set (tree_ids t)"
  shows "omit ident [] t (fst (removeItemFromTree t ident []))
           (snd (removeItemFromTree t ident []))"
  using removeLoop_present [OF assms, of "[]" "[]"]
  by (auto simp: removeItemFromTree_def)

theorem remove_present_omits_node_witness:
  "distinct (tree_ids [Block ''A'' () [Block ''B'' () [Block ''D'' () []]], Block ''C'' () []])
   \<and> ''B'' \<in> set (tree_ids [Block ''A'' () [Block ''B'' () [Block ''D'' () []]], Block ''C'' () []])
   \<and> omit ''B'' [] [Block ''A'' () [Block ''B'' () [Block ''D'' () []]], Block ''C'' () []]
        [Block ''A'' () [], Block ''C'' () []] ''A''"
proof -
  let ?t = "[Block ''A'' () [Block ''B'' () [Block ''D'' () []]], Block ''C'' () []]"
  have d: "distinct (tree_ids ?t)" by simp
  have m: "''B'' \<in> set (tree_ids ?t)" by simp
  have e: "removeItemFromTree ?t ''B'' [] = ([Block ''A'' () [], Block ''C'' () []], ''A'')"
    by (simp add: removeItemFromTree_def)
  from remove_present_omits_node [OF d m] show ?thesis unfolding e using d m by simp
qed

text \<open>
  C6. When exactly one node of the tree carries the anchor id, \<open>addItemToTree\<close> puts the
  item directly behind or directly before that node in the node's sibling sequence,
  as the flag says, and returns the 0-based index of the item in the new sequence
  with the client id of the anchor's parent. When no node carries the anchor id it
  returns a tree equal to its argument, the empty target id and the index \<open>-1\<close>.
\<close>

theorem addItemToTree_beside_anchor:
  "(count_list (tree_ids t) anchor = 1 \<longrightarrow>
      (case addItemToTree t anchor item after [] of
         (t', tid, idx) \<Rightarrow> inserted anchor item after [] t t' tid idx))
   \<and> (anchor \<notin> set (tree_ids t) \<longrightarrow> addItemToTree t anchor item after [] = (t, [], - 1))"
proof (intro conjI impI)
  assume "count_list (tree_ids t) anchor = 1"
  from addLoop_present [OF this, of item after "[]" "[]"]
  show "case addItemToTree t anchor item after [] of
          (t', tid, idx) \<Rightarrow> inserted anchor item after [] t t' tid idx"
    by (auto simp: addItemToTree_def split: if_splits)
next
  assume "anchor \<notin> set (tree_ids t)"
  then show "addItemToTree t anchor item after [] = (t, [], - 1)"
    by (simp add: addItemToTree_def addLoop_absent)
qed

theorem addItemToTree_beside_anchor_witness:
  "count_list (tree_ids [Block ''A'' () [Block ''B'' () [], Block ''C'' () []]]) ''B'' = 1
   \<and> inserted ''B'' (Block ''X'' () []) True []
        [Block ''A'' () [Block ''B'' () [], Block ''C'' () []]]
        [Block ''A'' () [Block ''B'' () [], Block ''X'' () [], Block ''C'' () []]] ''A'' 1
   \<and> ''Z'' \<notin> set (tree_ids [Block ''A'' () [Block ''B'' () [], Block ''C'' () []]])
   \<and> addItemToTree [Block ''A'' () [Block ''B'' () [], Block ''C'' () []]] ''Z''
        (Block ''X'' () []) True []
       = ([Block ''A'' () [Block ''B'' () [], Block ''C'' () []]], [], - 1)"
proof -
  let ?t = "[Block ''A'' () [Block ''B'' () [], Block ''C'' () []]]"
  let ?x = "Block ''X'' () [] :: unit block"
  have c: "count_list (tree_ids ?t) ''B'' = 1" by simp
  have z: "''Z'' \<notin> set (tree_ids ?t)" by simp
  have e: "addItemToTree ?t ''B'' ?x True [] =
      ([Block ''A'' () [Block ''B'' () [], Block ''X'' () [], Block ''C'' () []]], ''A'', 1)"
    by (simp add: addItemToTree_def)
  from addItemToTree_beside_anchor [of ?t "''B''" ?x True]
    addItemToTree_beside_anchor [of ?t "''Z''" ?x True] c z
  show ?thesis unfolding e by simp
qed

text \<open>
  C2. For every tree with unique client ids and every id \<open>x\<close> carried by a node of
  it, removing \<open>x\<close> with \<open>removeItemFromTree\<close> and inserting the removed node with
  \<open>addItemToTree\<close> at any anchor id present in the remaining tree gives a tree with the
  same multiset of client ids as the original one, and without duplicates.
\<close>

theorem remove_then_insert_keeps_ids:
  assumes "distinct (tree_ids t)"
    and "find_block x t = Some node"
    and "anchor \<in> set (tree_ids (fst (removeItemFromTree t x [])))"
  shows "mset (tree_ids (fst (addItemToTree (fst (removeItemFromTree t x [])) anchor node after [])))
           = mset (tree_ids t)
         \<and> distinct (tree_ids (fst (addItemToTree (fst (removeItemFromTree t x [])) anchor node
                                      after [])))"
proof -
  let ?t1 = "fst (removeItemFromTree t x [])"
  let ?t2 = "fst (addItemToTree ?t1 anchor node after [])"
  from assms(2) have "x \<in> set (tree_ids t)"
    using find_block_None_iff [of x t] by auto
  from removeLoop_present [OF assms(1) this, of "[]" "[]"]
  obtain rp where om: "omit x [] t ?t1 rp" by (auto simp: removeItemFromTree_def)
  from omit_mset [OF om assms(1,2)]
  have m1: "mset (tree_ids t) = mset (tree_ids ?t1 @ block_ids node)" by simp
  with assms(1) have "distinct (tree_ids ?t1 @ block_ids node)"
    using mset_eq_imp_distinct_iff by blast
  then have "distinct (tree_ids ?t1)" by simp
  then have "count_list (tree_ids ?t1) anchor = 1"
    using assms(3) by (rule distinct_count_list_1)
  from addLoop_present [OF this, of node after "[]" "[]"]
  obtain tid idx where "inserted anchor node after [] ?t1 ?t2 tid idx"
    by (auto simp: addItemToTree_def)
  from inserted_mset [OF this] m1 have m2: "mset (tree_ids ?t2) = mset (tree_ids t)" by simp
  with assms(1) have "distinct (tree_ids ?t2)" using mset_eq_imp_distinct_iff by blast
  with m2 show ?thesis by simp
qed

theorem remove_then_insert_keeps_ids_witness:
  "distinct (tree_ids [Block ''A'' () [Block ''B'' () [Block ''D'' () []]], Block ''C'' () []])
   \<and> find_block ''B'' [Block ''A'' () [Block ''B'' () [Block ''D'' () []]], Block ''C'' () []]
       = Some (Block ''B'' () [Block ''D'' () []])
   \<and> ''C'' \<in> set (tree_ids (fst (removeItemFromTree
        [Block ''A'' () [Block ''B'' () [Block ''D'' () []]], Block ''C'' () []] ''B'' [])))
   \<and> fst (addItemToTree (fst (removeItemFromTree
        [Block ''A'' () [Block ''B'' () [Block ''D'' () []]], Block ''C'' () []] ''B'' []))
        ''C'' (Block ''B'' () [Block ''D'' () []]) True [])
       = [Block ''A'' () [], Block ''C'' () [], Block ''B'' () [Block ''D'' () []]]
   \<and> mset (tree_ids [Block ''A'' () [], Block ''C'' () [], Block ''B'' () [Block ''D'' () []]])
       = mset (tree_ids [Block ''A'' () [Block ''B'' () [Block ''D'' () []]], Block ''C'' () []])
   \<and> distinct (tree_ids [Block ''A'' () [], Block ''C'' () [], Block ''B'' () [Block ''D'' () []]])"
proof -
  let ?t = "[Block ''A'' () [Block ''B'' () [Block ''D'' () []]], Block ''C'' () []]"
  let ?n = "Block ''B'' () [Block ''D'' () []] :: unit block"
  have d: "distinct (tree_ids ?t)" by simp
  have f: "find_block ''B'' ?t = Some ?n" by simp
  have r: "removeItemFromTree ?t ''B'' [] = ([Block ''A'' () [], Block ''C'' () []], ''A'')"
    by (simp add: removeItemFromTree_def)
  have a: "''C'' \<in> set (tree_ids (fst (removeItemFromTree ?t ''B'' [])))"
    unfolding r by simp
  have e: "addItemToTree [Block ''A'' () [], Block ''C'' () []] ''C'' ?n True [] =
      ([Block ''A'' () [], Block ''C'' () [], ?n], [], 2)"
    by (simp add: addItemToTree_def)
  from remove_then_insert_keeps_ids [OF d f a, of True] d f a
  show ?thesis unfolding r fst_conv e by blast
qed

text \<open>
  C4. For every registry, every current position with an entry and every nonzero
  velocity, \<open>findFirstValidSibling\<close> visits the indices one by one in the direction of
  the velocity sign, passes every entry that is not both marked \<open>dropSibling\<close> and
  of the same \<open>parentId\<close> as the entry at the current position, returns the first
  entry that is, with its index, and returns \<open>[ null, null ]\<close> as soon as it reaches an
  index without entry. (\<open>n\<close> is the number of steps taken.) The positions of the
  registry are safe integers, of magnitude below \<open>2 ^ 53\<close>, so that every index
  addition of the source is exact.
\<close>

theorem findFirstValidSibling_walk:
  assumes "\<forall>k\<in>fmdom' m. js_safe k"
    and "fmlookup m current = Some cur" and "v \<noteq> 0"
  shows "\<exists>n\<ge>1.
     (\<forall>j. 1 \<le> j \<and> j < n \<longrightarrow>
        (\<exists>e. fmlookup m (if v > 0 then current + j else current - j) = Some e
           \<and> \<not> (pos_dropSibling e \<and> pos_parentId e = pos_parentId cur)))
     \<and> ((fmlookup m (if v > 0 then current + n else current - n) = None
           \<and> findFirstValidSibling m current v = Inr None)
        \<or> (\<exists>e. fmlookup m (if v > 0 then current + n else current - n) = Some e
              \<and> pos_dropSibling e \<and> pos_parentId e = pos_parentId cur
              \<and> findFirstValidSibling m current v =
                  Inr (Some (e, if v > 0 then current + n else current - n))))"
proof -
  let ?d = "iterate v"
  let ?at = "\<lambda>k::int. if v > 0 then current + k else current - k"
  have safe: "js_safe current" using assms(1,2) by (auto dest: fmdom'I)
  have at: "\<And>k::nat. current + ?d + ?d * int k = ?at (int k + 1)"
    by (simp add: iterate_def)
  from siblingLoop_walk [OF assms(1), of "current + ?d" v cur]
  obtain n :: nat where
    skip: "\<forall>j<n. \<exists>e. fmlookup m (?at (int j + 1)) = Some e
             \<and> \<not> (pos_dropSibling e \<and> pos_parentId e = pos_parentId cur)"
    and stop: "(fmlookup m (?at (int n + 1)) = None
               \<and> siblingLoop m (Some cur) v (current + ?d) = Inr None)
            \<or> (\<exists>e. fmlookup m (?at (int n + 1)) = Some e
                  \<and> pos_dropSibling e \<and> pos_parentId e = pos_parentId cur
                  \<and> siblingLoop m (Some cur) v (current + ?d) =
                      Inr (Some (e, ?at (int n + 1))))"
    unfolding at by blast
  have "\<forall>j. 1 \<le> j \<and> j < int n + 1 \<longrightarrow>
        (\<exists>e. fmlookup m (?at j) = Some e
           \<and> \<not> (pos_dropSibling e \<and> pos_parentId e = pos_parentId cur))"
  proof (intro allI impI)
    fix j :: int assume j: "1 \<le> j \<and> j < int n + 1"
    then have "nat (j - 1) < n" and "int (nat (j - 1)) + 1 = j" by auto
    with skip show "\<exists>e. fmlookup m (?at j) = Some e
           \<and> \<not> (pos_dropSibling e \<and> pos_parentId e = pos_parentId cur)"
      by metis
  qed
  moreover from stop assms(2) safe
  have "(fmlookup m (?at (int n + 1)) = None \<and> findFirstValidSibling m current v = Inr None)
        \<or> (\<exists>e. fmlookup m (?at (int n + 1)) = Some e
              \<and> pos_dropSibling e \<and> pos_parentId e = pos_parentId cur
              \<and> findFirstValidSibling m current v = Inr (Some (e, ?at (int n + 1))))"
    by (simp add: findFirstValidSibling_def)
  moreover have "(1::int) \<le> int n + 1" by simp
  ultimately show ?thesis by blast
qed

theorem findFirstValidSibling_walk_witness:
  "js_safe 0 \<and> js_safe 1 \<and> js_safe 2 \<and> js_safe 3 \<and> js_safe 4
   \<and> fmdom' example_positions = {0, 1, 2, 3, 4}
   \<and> fmlookup example_positions 1 = Some \<lparr>pos_clientId = ''a1'', pos_dropContainer = False,
                  pos_dropSibling = True, pos_parentId = Some ''A''\<rparr>
   \<and> (1::real) \<noteq> 0
   \<and> findFirstValidSibling example_positions 1 1 =
       Inr (Some (\<lparr>pos_clientId = ''a3'', pos_dropContainer = False,
                    pos_dropSibling = True, pos_parentId = Some ''A''\<rparr>, 3))"
proof -
  have keys: "\<forall>k\<in>fmdom' example_positions. js_safe k"
    by (simp add: example_positions_keys js_safe_def)
  have cur: "fmlookup example_positions 1 = Some \<lparr>pos_clientId = ''a1'',
      pos_dropContainer = False, pos_dropSibling = True, pos_parentId = Some ''A''\<rparr>"
    by (simp add: example_positions_lookup)
  have nz: "(1::real) \<noteq> 0" by simp
  from findFirstValidSibling_walk [OF keys cur nz]
  obtain n :: int where n: "1 \<le> n"
    and skip: "\<forall>j. 1 \<le> j \<and> j < n \<longrightarrow>
        (\<exists>e. fmlookup example_positions (1 + j) = Some e
           \<and> \<not> (pos_dropSibling e \<and> pos_parentId e = Some ''A''))"
    and stop: "(fmlookup example_positions (1 + n) = None
           \<and> findFirstValidSibling example_positions 1 1 = Inr None)
        \<or> (\<exists>e. fmlookup example_positions (1 + n) = Some e
              \<and> pos_dropSibling e \<and> pos_parentId e = Some ''A''
              \<and> findFirstValidSibling example_positions 1 1 = Inr (Some (e, 1 + n)))"
    by auto
  have "n \<le> 2"
  proof (rule ccontr)
    assume "\<not> n \<le> 2"
    with skip [rule_format, of 2] show False
      by (simp add: example_positions_lookup)
  qed
  with n have "n = 1 \<or> n = 2" by auto
  with stop have "findFirstValidSibling example_positions 1 1 =
       Inr (Some (\<lparr>pos_clientId = ''a3'', pos_dropContainer = False,
                    pos_dropSibling = True, pos_parentId = Some ''A''\<rparr>, 3))"
    by (auto simp: example_positions_lookup)
  with cur nz keys show ?thesis by (simp add: example_positions_keys)
qed

text \<open>
  C10. For every registry, every starting position that is a safe integer (of magnitude
  below \<open>2 ^ 53\<close>, where \<open>current + iterate\<close> is exact) and every nonzero velocity, an
  entry returned by \<open>findFirstValidSibling\<close> has an index different from the starting
  position and strictly ahead of it in the direction of the velocity sign, whatever the
  entry at the starting position is.
\<close>

theorem findFirstValidSibling_strictly_ahead:
  assumes "js_safe current"
    and "findFirstValidSibling m current v = Inr (Some (e, i))" and "v \<noteq> 0"
  shows "i \<noteq> current \<and> (v > 0 \<longrightarrow> current < i) \<and> (v < 0 \<longrightarrow> i < current)"
  using siblingLoop_ahead [of m "fmlookup m current" v "current + iterate v" e i] assms
  by (auto simp: findFirstValidSibling_def iterate_def split: if_splits)

theorem findFirstValidSibling_strictly_ahead_witness:
  "js_safe 1
   \<and> findFirstValidSibling example_positions 1 1 =
       Inr (Some (\<lparr>pos_clientId = ''a3'', pos_dropContainer = False,
                    pos_dropSibling = True, pos_parentId = Some ''A''\<rparr>, 3))
   \<and> (1::real) \<noteq> 0
   \<and> fmlookup example_positions 1 = Some \<lparr>pos_clientId = ''a1'', pos_dropContainer = False,
                  pos_dropSibling = True, pos_parentId = Some ''A''\<rparr>
   \<and> (3::int) \<noteq> 1 \<and> (1::real) > 0 \<and> (1::int) < 3"
proof -
  have sf: "js_safe 1" by (simp add: js_safe_def)
  have nz: "(1::real) \<noteq> 0" by simp
  from findFirstValidSibling_strictly_ahead [OF sf example_sibling_down nz]
    example_sibling_down nz sf
  show ?thesis by (simp add: example_positions_lookup)
qed




text \<open>
  C5. A drag tick changes nothing (the working tree, the pending target and the
  registry stay as they are, and nothing is thrown) whenever one of the guards holds:
  the velocity read is exactly zero, the sign of the vertical translate disagrees with
  the sign of the velocity, or the magnitude of the vertical translate is below half
  the row height, \<open>36 / 2 = 18\<close>; the last for all values of the other arguments.
\<close>

theorem moveItem_guards_reject:
  "moveItem s block translate translateX listPosition None = Inr s
   \<and> moveItem s block translate translateX listPosition (Some 0) = Inr s
   \<and> ((0 < v \<and> translate < 0) \<or> (v < 0 \<and> 0 < translate) \<longrightarrow>
        moveItem s block translate translateX listPosition (Some v) = Inr s)
   \<and> ITEM_HEIGHT / 2 = 18
   \<and> (\<bar>translate\<bar> < ITEM_HEIGHT / 2 \<longrightarrow>
        moveItem s block translate translateX listPosition velocity = Inr s)"
  by (auto simp: moveItem_def Let_def ITEM_HEIGHT_def split: option.splits)

theorem moveItem_guards_reject_witness:
  "((0 < (1::real) \<and> (- 40::real) < 0) \<or> ((1::real) < 0 \<and> 0 < (- 40::real)))
   \<and> moveItem example_view (Block ''a1'' () []) (- 40) 0 1 (Some 1) = Inr example_view
   \<and> \<bar>17::real\<bar> < ITEM_HEIGHT / 2
   \<and> moveItem example_view (Block ''a1'' () []) 17 0 1 (Some 1) = Inr example_view
   \<and> moveItem example_view (Block ''a1'' () []) 40 0 1 None = Inr example_view
   \<and> moveItem example_view (Block ''a1'' () []) 40 0 1 (Some 1) =
       Inr (example_view
             \<lparr>lastTarget := Some \<lparr>lt_clientId = ''a1'', lt_originalParent = ''A'',
                                  lt_targetId = ''A'', lt_targetIndex = 2\<rparr>,
              tree := [Block ''A'' () [Block ''a2'' () [], Block ''a3'' () [], Block ''a1'' () []],
                       Block ''B'' () []]\<rparr>)"
proof -
  have g: "(0 < (1::real) \<and> (- 40::real) < 0) \<or> ((1::real) < 0 \<and> 0 < (- 40::real))" by simp
  have h: "\<bar>17::real\<bar> < ITEM_HEIGHT / 2" by (simp add: ITEM_HEIGHT_def)
  have ev: "moveItem example_view (Block ''a1'' () []) 40 0 1 (Some 1) =
       Inr (example_view
             \<lparr>lastTarget := Some \<lparr>lt_clientId = ''a1'', lt_originalParent = ''A'',
                                  lt_targetId = ''A'', lt_targetIndex = 2\<rparr>,
              tree := [Block ''A'' () [Block ''a2'' () [], Block ''a3'' () [], Block ''a1'' () []],
                       Block ''B'' () []]\<rparr>)"
    by (simp add: moveItem_def Let_def ITEM_HEIGHT_def UPDATE_PARENT_THRESHOLD_def
        example_sibling_down example_view_def insertBeside_def removeItemFromTree_def
        addItemToTree_def)
  from moveItem_guards_reject [of example_view "Block ''a1'' () []" "- 40" 0 1 1]
    moveItem_guards_reject [of example_view "Block ''a1'' () []" 17 0 1 _ "Some 1"]
    moveItem_guards_reject [of example_view "Block ''a1'' () []" 40 0 1]
    g h ev
  show ?thesis by simp
qed

text \<open>
  C9. \<open>dropItem\<close> makes no call of \<open>moveBlocksToPosition\<close> when no target is pending.
  When one is pending it makes exactly one call, with the dragged client id, the
  original parent recorded with the pending target, the target parent id and the
  target index, and clears the pending target, so that a second \<open>dropItem\<close> changes
  nothing. The original parent recorded by a drag tick is the parent found when the
  node was removed from the authoritative tree on that tick.
\<close>

theorem dropItem_commits_once:
  "(lastTarget s = None \<longrightarrow> dropItem s = s)
   \<and> (lastTarget s = Some target \<longrightarrow>
        moveBlocksToPosition_calls (dropItem s) =
          moveBlocksToPosition_calls s @
            [([lt_clientId target], lt_originalParent target, lt_targetId target,
              lt_targetIndex target)]
        \<and> lastTarget (dropItem s) = None
        \<and> dropItem (dropItem s) = dropItem s)
   \<and> moveBlocksToPosition_calls (dropItem (insertInto s block tp)) =
        moveBlocksToPosition_calls s @
          [([clientId block], snd (removeItemFromTree (clientIdsTree s) (clientId block) []),
            pos_clientId tp, 0)]
   \<and> moveBlocksToPosition_calls (dropItem (insertBeside s block tp dir)) =
        moveBlocksToPosition_calls s @
          [([clientId block], snd (removeItemFromTree (clientIdsTree s) (clientId block) []),
            fst (snd (addItemToTree (fst (removeItemFromTree (clientIdsTree s) (clientId block) []))
                        (pos_clientId tp) block (dir = DOWN) [])),
            snd (snd (addItemToTree (fst (removeItemFromTree (clientIdsTree s) (clientId block) []))
                        (pos_clientId tp) block (dir = DOWN) [])))]"
  by (simp add: dropItem_def insertInto_def insertBeside_def split: prod.splits)

theorem dropItem_commits_once_witness:
  "lastTarget flat_view = None
   \<and> dropItem flat_view = flat_view
   \<and> moveBlocksToPosition_calls (dropItem flat_view) = []
   \<and> lastTarget (flat_view
           \<lparr>lastTarget := Some \<lparr>lt_clientId = ''B'', lt_originalParent = [],
                                lt_targetId = [], lt_targetIndex = 2\<rparr>,
            tree := [Block ''A'' () [], Block ''C'' () [], Block ''B'' () []]\<rparr>)
       = Some \<lparr>lt_clientId = ''B'', lt_originalParent = [], lt_targetId = [],
               lt_targetIndex = 2\<rparr>
   \<and> moveBlocksToPosition_calls (dropItem (flat_view
           \<lparr>lastTarget := Some \<lparr>lt_clientId = ''B'', lt_originalParent = [],
                                lt_targetId = [], lt_targetIndex = 2\<rparr>,
            tree := [Block ''A'' () [], Block ''C'' () [], Block ''B'' () []]\<rparr>))
       = [([''B''], [], [], 2)]
   \<and> lastTarget (dropItem (flat_view
           \<lparr>lastTarget := Some \<lparr>lt_clientId = ''B'', lt_originalParent = [],
                                lt_targetId = [], lt_targetIndex = 2\<rparr>,
            tree := [Block ''A'' () [], Block ''C'' () [], Block ''B'' () []]\<rparr>)) = None
   \<and> moveBlocksToPosition_calls (dropItem (dropItem (flat_view
           \<lparr>lastTarget := Some \<lparr>lt_clientId = ''B'', lt_originalParent = [],
                                lt_targetId = [], lt_targetIndex = 2\<rparr>,
            tree := [Block ''A'' () [], Block ''C'' () [], Block ''B'' () []]\<rparr>)))
       = [([''B''], [], [], 2)]"
proof -
  let ?target = "\<lparr>lt_clientId = ''B'', lt_originalParent = [], lt_targetId = [],
               lt_targetIndex = 2\<rparr>"
  let ?s1 = "flat_view\<lparr>lastTarget := Some ?target,
            tree := [Block ''A'' () [], Block ''C'' () [], Block ''B'' () []]\<rparr>"
  have n: "lastTarget flat_view = None" by (simp add: flat_view_def)
  have c0: "moveBlocksToPosition_calls flat_view = []" by (simp add: flat_view_def)
  have p: "lastTarget ?s1 = Some ?target" by simp
  from dropItem_commits_once [of flat_view] n
  have a: "dropItem flat_view = flat_view" by simp
  from dropItem_commits_once [of ?s1 ?target] p c0
  have b: "moveBlocksToPosition_calls (dropItem ?s1) = [([''B''], [], [], 2)]"
    and c: "lastTarget (dropItem ?s1) = None"
    and d: "dropItem (dropItem ?s1) = dropItem ?s1"
    by simp_all
  from n a c0 p b c d show ?thesis by simp
qed

text \<open>
  C3. Each of the three tree operations is pure: it returns newly built structures and
  leaves the tree it was given and every node of it unchanged. \<open>removeItemFromTree\<close>
  and \<open>addItemToTree\<close> are (\<open>removeItemFromTree_h_pure\<close>,
  \<open>addItemToTree_h_pure\<close>); \<open>addChildItemToTree\<close> is not. Called on the tree
  \<open>A [B], C\<close> with the id \<open>A\<close> and the node \<open>X\<close>, it returns the array
  \<open>[0, 4]\<close> whose first element is the object \<open>A\<close> of its argument, and that object's
  \<open>innerBlocks\<close> has changed from \<open>[B]\<close> to \<open>[X, B]\<close>: the tree that was passed in
  now reads \<open>A [X, B], C\<close>.
\<close>

theorem addChildItemToTree_h_assigns_to_input:
  "load example_heap 0 =
     Some \<lparr>node_clientId = ''A'', node_attrs = (), node_innerBlocks = [1]\<rparr>
   \<and> reify 2 example_heap [0, 2] =
       Some [Block ''A'' () [Block ''B'' () []], Block ''C'' () []]
   \<and> (\<exists>h'. addChildItemToTree_h 1 example_heap [0, 2] ''A'' 3 = Some (h', [0, 4])
         \<and> load h' 0 =
             Some \<lparr>node_clientId = ''A'', node_attrs = (), node_innerBlocks = [3, 1]\<rparr>
         \<and> reify 2 h' [0, 2] =
             Some [Block ''A'' () [Block ''X'' () [], Block ''B'' () []], Block ''C'' () []])"
  by (simp add: addChildItemToTree_h_def example_heap_def load_def alloc_def
      assign_innerBlocks_def numeral_2_eq_2)

end
